theory Spec2Isabelle
  imports Main "HOL-Library.Word"
begin

unbundle bit_operations_syntax

section \<open>gray.h: bit utilities\<close>

text \<open>
  The C++ types are kept: \<open>uint32_t\<close> is \<open>32 word\<close> (arithmetic wraps), \<open>int\<close> is
  \<open>int\<close>. Every loop of the source is a recursive function whose termination is proved.
\<close>

type_synonym u32 = "32 word"

lemma unat_shiftr1_less: "x \<noteq> 0 \<Longrightarrow> unat (drop_bit 1 x) < unat x" for x :: u32
  by (simp add: unat_drop_bit_eq drop_bit_Suc unat_gt_0 unat_div)

lemma unat_pred_less: "x \<noteq> 0 \<Longrightarrow> unat (x - 1) < unat x" for x :: u32
  by (simp add: unat_minus_one unat_gt_0)

lemma forward_measure_less:
  "n = i + 1 \<Longrightarrow> n \<noteq> b \<Longrightarrow> unat (b - 1 - n) < unat (b - 1 - i)" for n i b :: u32
proof -
  assume n: "n = i + 1" and nb: "n \<noteq> b"
  have "b - 1 - i \<noteq> 0"
    using n nb by auto
  then have "unat (b - 1 - i - 1) < unat (b - 1 - i)"
    by (rule unat_pred_less)
  moreover have "b - 1 - n = b - 1 - i - 1"
    using n by simp
  ultimately show ?thesis
    by (simp only:)
qed

text \<open>
  \<^verbatim>\<open>for (; x; x >>= 1) { count += x & 1; }\<close>
\<close>

function count_bits_loop :: "u32 \<Rightarrow> u32 \<Rightarrow> u32" where
  "count_bits_loop x count =
     (if x \<noteq> 0 then count_bits_loop (drop_bit 1 x) (count + (x AND 1)) else count)"
  by pat_completeness auto
termination
proof (relation "measure (\<lambda>(x, count). unat x)")
  show "wf (measure (\<lambda>(x :: u32, count :: u32). unat x))"
    by simp
next
  fix x count :: u32
  assume "x \<noteq> 0"
  then have "unat (drop_bit 1 x) < unat x"
    by (rule unat_shiftr1_less)
  then show "((drop_bit 1 x, count + (x AND 1)), (x, count)) \<in> measure (\<lambda>(x, count). unat x)"
    by simp
qed

declare count_bits_loop.simps [simp del]

definition count_bits :: "u32 \<Rightarrow> u32" where
  "count_bits x = count_bits_loop x 0"

text \<open>
  \<^verbatim>\<open>uint32_t r = 0; while (x >>= 1) { ++r; } return r;\<close>
  The result type of the source is \<open>int\<close>.
\<close>

function set_bit_loop :: "u32 \<Rightarrow> u32 \<Rightarrow> u32" where
  "set_bit_loop x r =
     (let x' = drop_bit 1 x in if x' \<noteq> 0 then set_bit_loop x' (r + 1) else r)"
  by pat_completeness auto
termination
proof (relation "measure (\<lambda>(x, r). unat x)")
  show "wf (measure (\<lambda>(x :: u32, r :: u32). unat x))"
    by simp
next
  fix x r x' :: u32
  assume "x' = drop_bit 1 x" and "x' \<noteq> 0"
  then have "x \<noteq> 0"
    by auto
  then have "unat (drop_bit 1 x) < unat x"
    by (rule unat_shiftr1_less)
  with \<open>x' = drop_bit 1 x\<close>
  show "((x', r + 1), (x, r)) \<in> measure (\<lambda>(x, r). unat x)"
    by simp
qed

declare set_bit_loop.simps [simp del]

definition set_bit_index :: "u32 \<Rightarrow> int" where
  "set_bit_index x = sint (set_bit_loop x 0)"

text \<open>
  \<^verbatim>\<open>uint32_t f = 1; for (; x > 1; --x) { f *= x; } return f;\<close>
  The product is taken in \<open>uint32_t\<close>, so it wraps modulo \<open>2 ^ 32\<close>.
\<close>

function fact_loop :: "u32 \<Rightarrow> u32 \<Rightarrow> u32" where
  "fact_loop x f = (if 1 < x then fact_loop (x - 1) (f * x) else f)"
  by pat_completeness auto
termination
proof (relation "measure (\<lambda>(x, f). unat x)")
  show "wf (measure (\<lambda>(x :: u32, f :: u32). unat x))"
    by simp
next
  fix x f :: u32
  assume "1 < x"
  then have "x \<noteq> 0"
    by auto
  then have "unat (x - 1) < unat x"
    by (rule unat_pred_less)
  then show "((x - 1, f * x), (x, f)) \<in> measure (\<lambda>(x, f). unat x)"
    by simp
qed

declare fact_loop.simps [simp del]

definition fact_u32 :: "u32 \<Rightarrow> u32" where
  "fact_u32 x = fact_loop x 1"

section \<open>gray.h: the fixed-weight Gray code generator\<close>

text \<open>
  The data members \<^verbatim>\<open>size_\<close>, \<^verbatim>\<open>pick_\<close>, ... of the classes are the record fields
  \<open>size_m\<close>, \<open>pick_m\<close>, ... (a name cannot end in an underscore here).
\<close>

datatype error = DivisionByZero | OutOfBounds

record gray_generator_t =
  size_m :: int
  pick_m :: int
  reversed_m :: bool
  index_m :: u32
  combinations_m :: int

text \<open>\<^verbatim>\<open>static uint32_t gray(uint32_t x) { return x ^ (x >> 1); }\<close>\<close>

definition gray :: "u32 \<Rightarrow> u32" where
  "gray x = x XOR drop_bit 1 x"

text \<open>
  \<^verbatim>\<open>1 << size_\<close> is computed in \<open>int\<close> and converted to \<open>uint32_t\<close> by the comparison
  with \<open>next_index\<close>. C++ defines the shift for \<open>0 \<le> size_m \<le> 31\<close> only; the theorems
  below keep to that range.
\<close>

definition one_shl :: "int \<Rightarrow> u32" where
  "one_shl s = push_bit (nat s) 1"

text \<open>
  The two \<^verbatim>\<open>for (;;)\<close> loops of \<^verbatim>\<open>next()\<close>. Each returns \<open>None\<close> when it leaves
  through the boundary test (the branch that flips \<^verbatim>\<open>reversed_\<close>) and \<open>Some n\<close> when it
  leaves through the popcount test (the branch that stores \<^verbatim>\<open>index_ = next_index\<close>).
  The comparison \<^verbatim>\<open>count_bits(...) == pick_\<close> converts \<open>pick_m\<close> to \<open>uint32_t\<close>.
\<close>

function reverse_search :: "int \<Rightarrow> u32 \<Rightarrow> u32 option" where
  "reverse_search pick next_index =
     (let n = next_index - 1 in
      if n = 0 then None
      else if count_bits (gray n) = word_of_int pick then Some n
      else reverse_search pick n)"
  by pat_completeness auto
termination
proof (relation "measure (\<lambda>(pick, i). unat (i - 1))")
  show "wf (measure (\<lambda>(pick :: int, i :: u32). unat (i - 1)))"
    by simp
next
  fix pick :: int and next_index n :: u32
  assume "n = next_index - 1" and "n \<noteq> 0"
  then have "unat (n - 1) < unat (next_index - 1)"
    using unat_pred_less [of n] by simp
  then show "((pick, n), (pick, next_index)) \<in> measure (\<lambda>(pick, i). unat (i - 1))"
    by simp
qed

declare reverse_search.simps [simp del]

function forward_search :: "int \<Rightarrow> int \<Rightarrow> u32 \<Rightarrow> u32 option" where
  "forward_search sz pick next_index =
     (let n = next_index + 1 in
      if n = one_shl sz then None
      else if count_bits (gray n) = word_of_int pick then Some n
      else forward_search sz pick n)"
  by pat_completeness auto
termination
proof (relation "measure (\<lambda>(sz, pick, i). unat (one_shl sz - 1 - i))")
  show "wf (measure (\<lambda>(sz :: int, pick :: int, i :: u32). unat (one_shl sz - 1 - i)))"
    by simp
next
  fix sz pick :: int and next_index n :: u32
  assume "n = next_index + 1" and "n \<noteq> one_shl sz"
  then have "unat (one_shl sz - 1 - n) < unat (one_shl sz - 1 - next_index)"
    by (rule forward_measure_less)
  then show "((sz, pick, n), (sz, pick, next_index))
      \<in> measure (\<lambda>(sz, pick, i). unat (one_shl sz - 1 - i))"
    by simp
qed

declare forward_search.simps [simp del]

definition gen_next :: "gray_generator_t \<Rightarrow> gray_generator_t" where
  "gen_next g =
     (if reversed_m g then
        (case reverse_search (pick_m g) (index_m g) of
           None \<Rightarrow> g\<lparr>reversed_m := False\<rparr>
         | Some n \<Rightarrow> g\<lparr>index_m := n\<rparr>)
      else
        (case forward_search (size_m g) (pick_m g) (index_m g) of
           None \<Rightarrow> g\<lparr>reversed_m := True\<rparr>
         | Some n \<Rightarrow> g\<lparr>index_m := n\<rparr>))"

text \<open>
  A call of \<^verbatim>\<open>next()\<close> \<^emph>\<open>accepts\<close> when its loop leaves through the popcount test, that
  is, when it stores a new \<^verbatim>\<open>index_\<close>; otherwise it has reached the boundary and flips
  \<^verbatim>\<open>reversed_\<close>.
\<close>

definition gen_accepts :: "gray_generator_t \<Rightarrow> bool" where
  "gen_accepts g =
     (if reversed_m g then reverse_search (pick_m g) (index_m g) \<noteq> None
      else forward_search (size_m g) (pick_m g) (index_m g) \<noteq> None)"

text \<open>\<^verbatim>\<open>uint32_t value() const { return gray(index_); }\<close>\<close>

definition gen_value :: "gray_generator_t \<Rightarrow> u32" where
  "gen_value g = gray (index_m g)"

text \<open>
  The constructor. The member initialiser
  \<^verbatim>\<open>combinations_(fact(size) / (fact(pick) * fact(size-pick)))\<close> divides in \<open>uint32_t\<close>
  (the \<open>int\<close> arguments are converted, so a negative \<open>size - pick\<close> wraps) and stores the
  quotient in an \<open>int\<close>. C++ leaves a division by zero undefined (it traps on common
  hardware); the model returns \<open>DivisionByZero\<close> there. The body then calls \<^verbatim>\<open>next()\<close>.
\<close>

definition gray_generator_init :: "int \<Rightarrow> int \<Rightarrow> error + gray_generator_t" where
  "gray_generator_init sz pick =
     (let d = fact_u32 (word_of_int pick) * fact_u32 (word_of_int (sz - pick)) in
      if d = 0 then Inl DivisionByZero
      else Inr (gen_next
        \<lparr>size_m = sz, pick_m = pick, reversed_m = False, index_m = 0,
         combinations_m = sint (fact_u32 (word_of_int sz) div d)\<rparr>))"

text \<open>The generator after \<open>n\<close> further calls of \<^verbatim>\<open>next()\<close>.\<close>

fun gen_after :: "nat \<Rightarrow> gray_generator_t \<Rightarrow> gray_generator_t" where
  "gen_after 0 g = g"
| "gen_after (Suc n) g = gen_after n (gen_next g)"

text \<open>The values accepted by \<open>n\<close> successive calls of \<^verbatim>\<open>next()\<close>, in order.\<close>

fun accepted_values :: "nat \<Rightarrow> gray_generator_t \<Rightarrow> u32 list" where
  "accepted_values 0 g = []"
| "accepted_values (Suc n) g =
     (if gen_accepts g then [gen_value (gen_next g)] else []) @ accepted_values n (gen_next g)"

section \<open>gray.h: the joiner of two generators\<close>

record gray_join_t =
  small_m :: gray_generator_t
  large_m :: gray_generator_t
  count_m :: int

definition gray_join_init :: "error + gray_join_t" where
  "gray_join_init =
     (case gray_generator_init 4 3 of
        Inl e \<Rightarrow> Inl e
      | Inr s \<Rightarrow>
         (case gray_generator_init 7 4 of
            Inl e \<Rightarrow> Inl e
          | Inr l \<Rightarrow> Inr \<lparr>small_m = s, large_m = l, count_m = 0\<rparr>))"

text \<open>
  \<^verbatim>\<open>%\<close> on \<open>int\<close> truncates towards zero: the remainder has the sign of the dividend.
\<close>

definition c_rem :: "int \<Rightarrow> int \<Rightarrow> int" where
  "c_rem a b = sgn a * (\<bar>a\<bar> mod \<bar>b\<bar>)"

text \<open>
  \<^verbatim>\<open>uint32_t ret = small_.value() << large_.size() | large_.value();
  count_++;
  if (count_ > 0 && count_ % large_.combinations() == 0) { small_.next(); }
  large_.next();
  return ret;\<close>
  \<open>count_m\<close> is an \<open>int\<close>; the model does not wrap it, and the theorems that speak
  of the number of calls keep it below \<open>2 ^ 31 - 1\<close>, where \<^verbatim>\<open>count_++\<close> is defined.
\<close>

definition join_next :: "gray_join_t \<Rightarrow> u32 \<times> gray_join_t" where
  "join_next j =
     (let ret = push_bit (nat (size_m (large_m j))) (gen_value (small_m j)) OR gen_value (large_m j);
          c = count_m j + 1;
          s = (if c > 0 \<and> c_rem c (combinations_m (large_m j)) = 0
               then gen_next (small_m j) else small_m j);
          l = gen_next (large_m j)
      in (ret, \<lparr>small_m = s, large_m = l, count_m = c\<rparr>))"

text \<open>The outputs of \<open>n\<close> successive calls of \<^verbatim>\<open>next()\<close>, and the joiner they leave.\<close>

fun join_outputs :: "nat \<Rightarrow> gray_join_t \<Rightarrow> u32 list" where
  "join_outputs 0 j = []"
| "join_outputs (Suc n) j = fst (join_next j) # join_outputs n (snd (join_next j))"

fun join_after :: "nat \<Rightarrow> gray_join_t \<Rightarrow> gray_join_t" where
  "join_after 0 j = j"
| "join_after (Suc n) j = join_after n (snd (join_next j))"

section \<open>invert.cpp: the index maps of \<^verbatim>\<open>eigen_sherman\<close>\<close>

text \<open>
  The part of \<^verbatim>\<open>eigen_sherman\<close> that owns the joiner, the current selection and the two
  index arrays. \<^verbatim>\<open>std::bitset<11> selected\<close> is a \<open>u32\<close> holding 11 bits;
  \<^verbatim>\<open>std::array<int, 11> main_to_comb\<close> and \<^verbatim>\<open>std::array<int, 7> comb_to_main\<close> are lists
  of 11 and 7 \<open>int\<close>s. An access outside an array is the error \<open>OutOfBounds\<close>.
\<close>

record sherman_state =
  gray_j :: gray_join_t
  selected :: u32
  main_to_comb :: "int list"
  comb_to_main :: "int list"

text \<open>
  \<^verbatim>\<open>auto comb_index = 0;
  for (size_t main_index = 0; main_index < selected.size(); ++main_index) {
    if (selected[main_index]) {
      main_to_comb[main_index] = comb_index;
      comb_to_main[comb_index] = main_index;
      ++comb_index;
    } else { main_to_comb[main_index] = -1; }
  }\<close>
\<close>

function init_maps :: "u32 \<Rightarrow> nat \<Rightarrow> int \<Rightarrow> int list \<Rightarrow> int list \<Rightarrow> error + int list \<times> int list" where
  "init_maps sel main_index comb_index m2c c2m =
     (if main_index < 11 then
        (if bit sel main_index then
           (if 0 \<le> comb_index \<and> nat comb_index < length c2m then
              init_maps sel (main_index + 1) (comb_index + 1)
                (m2c[main_index := comb_index]) (c2m[nat comb_index := int main_index])
            else Inl OutOfBounds)
         else init_maps sel (main_index + 1) comb_index (m2c[main_index := - 1]) c2m)
      else Inr (m2c, c2m))"
  by pat_completeness auto
termination
  by (relation "measure (\<lambda>(sel, main_index, comb_index, m2c, c2m). 11 - main_index)") auto

declare init_maps.simps [simp del]

text \<open>
  The arrays are declared without an initialiser. The model fills them with \<open>99\<close>, a value
  that is neither \<open>- 1\<close> nor an index of either array, so a cell the loop had left unwritten
  would break the invariant proved below.
\<close>

definition sherman_init :: "error + sherman_state" where
  "sherman_init =
     (case gray_join_init of
        Inl e \<Rightarrow> Inl e
      | Inr g \<Rightarrow>
         (let sel = take_bit 11 (fst (join_next g)) in
          case init_maps sel 0 0 (replicate 11 99) (replicate 7 99) of
            Inl e \<Rightarrow> Inl e
          | Inr (m2c, c2m) \<Rightarrow>
              Inr \<lparr>gray_j = snd (join_next g), selected = sel,
                   main_to_comb = m2c, comb_to_main = c2m\<rparr>))"

text \<open>
  The index part of one iteration of \<^verbatim>\<open>for (int n = 1; n < 35*4; ++n)\<close>:
  \<^verbatim>\<open>uint32_t selected_next = gray.next();
  uint32_t removed = set_bit(selected.to_ulong() &~selected_next);
  uint32_t added = set_bit(selected_next & ~selected.to_ulong());
  auto comb_swap_index = main_to_comb[removed];
  main_to_comb[removed] = -1;
  main_to_comb[added] = comb_swap_index;
  comb_to_main[comb_swap_index] = added;
  ...
  selected = selected_next;\<close>
\<close>

definition sherman_step :: "sherman_state \<Rightarrow> error + sherman_state" where
  "sherman_step st =
     (let selected_next = fst (join_next (gray_j st));
          removed = (word_of_int (set_bit_index (selected st AND NOT selected_next)) :: u32);
          added = (word_of_int (set_bit_index (selected_next AND NOT (selected st))) :: u32)
      in if length (main_to_comb st) \<le> unat removed then Inl OutOfBounds
         else
           (let comb_swap_index = main_to_comb st ! unat removed;
                m1 = (main_to_comb st)[unat removed := - 1]
            in if length m1 \<le> unat added then Inl OutOfBounds
               else if comb_swap_index < 0 \<or> length (comb_to_main st) \<le> nat comb_swap_index
               then Inl OutOfBounds
               else Inr \<lparr>gray_j = snd (join_next (gray_j st)),
                         selected = take_bit 11 selected_next,
                         main_to_comb = m1[unat added := comb_swap_index],
                         comb_to_main = (comb_to_main st)[nat comb_swap_index := uint added]\<rparr>))"

text \<open>The state after the initialisation and \<open>n\<close> iterations of the loop.\<close>

fun sherman_run :: "nat \<Rightarrow> error + sherman_state" where
  "sherman_run 0 = sherman_init"
| "sherman_run (Suc n) = (case sherman_run n of Inl e \<Rightarrow> Inl e | Inr st \<Rightarrow> sherman_step st)"

fun pc :: "nat \<Rightarrow> nat" where
  "pc n = (if n = 0 then 0 else n mod 2 + pc (n div 2))"

declare pc.simps [simp del]

definition gray_nat :: "nat \<Rightarrow> nat" where
  "gray_nat n = n XOR n div 2"

lemma pc_0 [simp]: "pc 0 = 0"
  by (simp add: pc.simps)

lemma pc_rec: "pc n = n mod 2 + pc (n div 2)"
  by (cases "n = 0") (simp_all add: pc.simps [of n])

lemma pc_eq_0_iff [simp]: "pc n = 0 \<longleftrightarrow> n = 0"
proof (induction n rule: pc.induct)
  case (1 n)
  show ?case
  proof (cases "n = 0")
    case True
    then show ?thesis by simp
  next
    case False
    with 1 have "pc (n div 2) = 0 \<longleftrightarrow> n div 2 = 0" by simp
    with False show ?thesis
      by (subst pc_rec) (auto simp: )
  qed
qed

lemma pc_add_pow: "x < 2 ^ n \<Longrightarrow> pc (2 ^ n + x) = Suc (pc x)"
proof (induction n arbitrary: x)
  case 0
  then show ?case by (simp add: pc.simps)
next
  case (Suc n)
  have d: "(2 ^ Suc n + x) div 2 = 2 ^ n + x div 2" by simp
  have m: "(2 ^ Suc n + x) mod 2 = x mod 2" by simp
  have "x div 2 < 2 ^ n" using Suc.prems by auto
  then have "pc (2 ^ n + x div 2) = Suc (pc (x div 2))"
    by (rule Suc.IH)
  then have "pc (2 ^ Suc n + x) = x mod 2 + Suc (pc (x div 2))"
    by (subst pc_rec) (simp only: d m)
  then show ?case
    by (simp add: pc_rec [of x])
qed

lemma not_bit_of_less: "x < 2 ^ n \<Longrightarrow> \<not> bit x n" for x :: nat
  by (metis bit_take_bit_iff less_irrefl take_bit_nat_eq_self)

lemma pow_and_less: "x < 2 ^ n \<Longrightarrow> 2 ^ n AND x = 0" for x :: nat
  by (rule bit_eqI) (auto simp: bit_simps not_bit_of_less)

lemma high_add_xor: "x < 2 ^ n \<Longrightarrow> 2 ^ n + x = 2 ^ n XOR x" for x :: nat
  by (rule disjunctive_add_eq_xor) (rule pow_and_less)

lemma xor_less_pow: "x < 2 ^ n \<Longrightarrow> y < 2 ^ n \<Longrightarrow> x XOR y < 2 ^ n" for x y :: nat
  by (metis take_bit_nat_eq_self_iff take_bit_xor)

lemma xor_cancel_common: "(a XOR x) XOR (a XOR y) = x XOR y" for a x y :: nat
  by (rule bit_eqI) (auto simp: bit_simps)

lemma xor_high_both: "x < 2 ^ n \<Longrightarrow> y < 2 ^ n \<Longrightarrow> (2 ^ n + x) XOR (2 ^ n + y) = x XOR y" for x y :: nat
  by (simp only: high_add_xor xor_cancel_common)

lemma xor_high_right: "x < 2 ^ n \<Longrightarrow> y < 2 ^ n \<Longrightarrow> x XOR (2 ^ n + y) = 2 ^ n + (x XOR y)" for x y :: nat
  by (simp add: high_add_xor xor_less_pow xor.left_commute)

lemma gray_nat_div2: "gray_nat x div 2 = gray_nat (x div 2)"
  by (simp add: gray_nat_def xor_nat_rec [of x])

lemma gray_nat_mod2: "gray_nat x mod 2 = (x mod 2 + x div 2 mod 2) mod 2"
  by (simp add: gray_nat_def xor_nat_rec [of x] mod2_eq_if)

lemma gray_nat_less: "x < 2 ^ n \<Longrightarrow> gray_nat x < 2 ^ n"
  unfolding gray_nat_def by (rule xor_less_pow) (auto intro: le_less_trans [OF div_le_dividend])

text \<open>reflection\<close>
lemma odd_sum_mod2: "a + b + 1 = 2 * m \<Longrightarrow> a mod 2 + b mod 2 = 1" for a b m :: nat
  by presburger

lemma odd_sum_div2: "a + b + 1 = 4 * m \<Longrightarrow> a div 2 + b div 2 + 1 = 2 * m" for a b m :: nat
proof -
  assume s: "a + b + 1 = 4 * m"
  define p q r t where "p = a div 2" and "q = b div 2" and "r = a mod 2" and "t = b mod 2"
  from s have "a + b + 1 = 2 * (2 * m)"
    by simp
  then have "a mod 2 + b mod 2 = 1"
    by (rule odd_sum_mod2)
  then have rt: "r + t = 1"
    by (simp add: r_def t_def)
  have a: "a = 2 * p + r" and b: "b = 2 * q + t"
    by (simp_all add: p_def q_def r_def t_def)
  have "2 * p + r + (2 * q + t) + 1 = 4 * m"
    using s unfolding a b .
  with rt have "p + q + 1 = 2 * m"
    by linarith
  then show ?thesis
    by (simp add: p_def q_def)
qed

lemma flip_both_mod2:
  "a mod 2 + b mod 2 = 1 \<Longrightarrow> c mod 2 + d mod 2 = 1
    \<Longrightarrow> (a mod 2 + c mod 2) mod 2 = (b mod 2 + d mod 2) mod 2" for a b c d :: nat
proof -
  assume 1: "a mod 2 + b mod 2 = 1" and 2: "c mod 2 + d mod 2 = 1"
  define p q r t where "p = a mod 2" and "q = b mod 2" and "r = c mod 2" and "t = d mod 2"
  have "p < 2" "q < 2" "r < 2" "t < 2"
    by (simp_all add: p_def q_def r_def t_def)
  moreover have "p + q = 1" "r + t = 1"
    using 1 2 by (simp_all add: p_def q_def r_def t_def)
  ultimately have "(p = 0 \<and> q = 1 \<or> p = 1 \<and> q = 0) \<and> (r = 0 \<and> t = 1 \<or> r = 1 \<and> t = 0)"
    by linarith
  then have "(p + r) mod 2 = (q + t) mod 2"
    by auto
  then show ?thesis
    by (simp only: p_def q_def r_def t_def)
qed

lemma gray_nat_reflect_sum:
  "x + j + 1 = 2 ^ Suc n \<Longrightarrow> j < 2 ^ n \<Longrightarrow> gray_nat x = 2 ^ n + gray_nat j"
proof (induction n arbitrary: x j)
  case 0
  then have "x = 1 \<and> j = 0"
    by auto
  then show ?case
    by (simp add: gray_nat_def)
next
  case (Suc n)
  define m :: nat where "m = 2 ^ n"
  have s: "x + j + 1 = 4 * m"
    using Suc.prems by (simp add: m_def)
  have s2: "x div 2 + j div 2 + 1 = 2 * m"
    using s by (rule odd_sum_div2)
  have sm: "x mod 2 + j mod 2 = 1"
    using s odd_sum_mod2 [of x j "2 * m"] by simp
  have sdm: "x div 2 mod 2 + j div 2 mod 2 = 1"
    using s2 by (rule odd_sum_mod2)
  have "j div 2 < 2 ^ n"
    using Suc.prems(2) by auto
  then have IH: "gray_nat (x div 2) = m + gray_nat (j div 2)"
    using Suc.IH [of "x div 2" "j div 2"] s2 by (simp add: m_def)
  have "gray_nat x = 2 * (gray_nat x div 2) + gray_nat x mod 2"
    by simp
  also have "gray_nat x div 2 = m + gray_nat (j div 2)"
    by (simp only: gray_nat_div2 IH)
  also have "gray_nat x mod 2 = gray_nat j mod 2"
    unfolding gray_nat_mod2 by (rule flip_both_mod2 [OF sm sdm])
  finally have "gray_nat x = 2 * m + (2 * gray_nat (j div 2) + gray_nat j mod 2)"
    by simp
  also have "2 * gray_nat (j div 2) + gray_nat j mod 2 = gray_nat j"
    by (simp flip: gray_nat_div2)
  finally show ?case
    by (simp add: m_def)
qed

lemma gray_nat_reflect: "j < 2 ^ n \<Longrightarrow> gray_nat (2 ^ Suc n - 1 - j) = 2 ^ n + gray_nat j"
  by (rule gray_nat_reflect_sum) simp_all

definition brgc :: "nat \<Rightarrow> nat list" where
  "brgc n = map gray_nat [0..<2 ^ n]"

definition fixed_weight :: "nat \<Rightarrow> nat \<Rightarrow> nat list" where
  "fixed_weight n k = filter (\<lambda>x. pc x = k) (brgc n)"

lemma upper_half_upt: "[2 ^ n..<2 ^ Suc n] = map (\<lambda>j. 2 ^ Suc n - 1 - j) (rev [0..<2 ^ n])"
proof (rule nth_equalityI)
  show "length [2 ^ n..<2 ^ Suc n] = length (map (\<lambda>j. 2 ^ Suc n - 1 - j) (rev [0..<2 ^ n]))"
    by simp
next
  fix i
  assume "i < length [2 ^ n..<2 ^ Suc n]"
  then have i: "i < 2 ^ n" by simp
  then show "[2 ^ n..<2 ^ Suc n] ! i = map (\<lambda>j. 2 ^ Suc n - 1 - j) (rev [0..<2 ^ n]) ! i"
    by (simp add: rev_nth)
qed

lemma brgc_Suc: "brgc (Suc n) = brgc n @ map (\<lambda>x. 2 ^ n + x) (rev (brgc n))"
proof -
  have "[0..<2 ^ Suc n] = [0..<2 ^ n] @ [2 ^ n..<2 ^ Suc n]"
    by (metis upt_add_eq_append le0 mult_2 power_Suc add.left_neutral)
  then have "brgc (Suc n) = brgc n @ map gray_nat [2 ^ n..<2 ^ Suc n]"
    by (simp only: brgc_def map_append)
  also have "map gray_nat [2 ^ n..<2 ^ Suc n]
      = map (\<lambda>j. gray_nat (2 ^ Suc n - 1 - j)) (rev [0..<2 ^ n])"
    by (simp only: upper_half_upt map_map comp_def)
  also have "\<dots> = map (\<lambda>j. 2 ^ n + gray_nat j) (rev [0..<2 ^ n])"
  proof (rule map_cong [OF refl])
    fix j
    assume "j \<in> set (rev [0..<2 ^ n])"
    then have "j < 2 ^ n" by simp
    then show "gray_nat (2 ^ Suc n - 1 - j) = 2 ^ n + gray_nat j"
      by (rule gray_nat_reflect)
  qed
  also have "\<dots> = map (\<lambda>x. 2 ^ n + x) (rev (brgc n))"
    by (simp add: brgc_def rev_map)
  finally show ?thesis .
qed

lemma brgc_less: "x \<in> set (brgc n) \<Longrightarrow> x < 2 ^ n"
  by (auto simp: brgc_def gray_nat_less)

lemma fixed_weight_less: "x \<in> set (fixed_weight n k) \<Longrightarrow> x < 2 ^ n"
  by (auto simp: fixed_weight_def brgc_less)

lemma fixed_weight_Suc_0: "fixed_weight (Suc n) 0 = fixed_weight n 0"
proof -
  have "filter (\<lambda>x. pc x = 0) (map (\<lambda>x. 2 ^ n + x) (rev (brgc n))) = []"
    by (auto simp: filter_empty_conv)
  then show ?thesis
    by (simp add: fixed_weight_def brgc_Suc)
qed

lemma fixed_weight_Suc_Suc:
  "fixed_weight (Suc n) (Suc k)
     = fixed_weight n (Suc k) @ map (\<lambda>x. 2 ^ n + x) (rev (fixed_weight n k))"
proof -
  have "filter (\<lambda>x. pc x = Suc k) (map (\<lambda>x. 2 ^ n + x) (rev (brgc n)))
      = map (\<lambda>x. 2 ^ n + x) (filter (\<lambda>x. pc (2 ^ n + x) = Suc k) (rev (brgc n)))"
    by (simp add: filter_map comp_def)
  also have "filter (\<lambda>x. pc (2 ^ n + x) = Suc k) (rev (brgc n))
      = filter (\<lambda>x. pc x = k) (rev (brgc n))"
    by (rule filter_cong) (auto simp: pc_add_pow brgc_less)
  finally show ?thesis
    by (simp add: fixed_weight_def brgc_Suc rev_filter)
qed

lemma fixed_weight_0: "fixed_weight 0 k = (if k = 0 then [0] else [])"
  by (auto simp: fixed_weight_def brgc_def gray_nat_def)

lemma length_fixed_weight: "length (fixed_weight n k) = n choose k"
proof (induction n arbitrary: k)
  case 0
  then show ?case by (simp add: fixed_weight_0)
next
  case (Suc n)
  then show ?case
    by (cases k) (simp_all add: fixed_weight_Suc_0 fixed_weight_Suc_Suc)
qed

lemma fixed_weight_eq_Nil_iff: "fixed_weight n k = [] \<longleftrightarrow> n < k"
proof -
  have "fixed_weight n k = [] \<longleftrightarrow> length (fixed_weight n k) = 0"
    by simp
  also have "\<dots> \<longleftrightarrow> n choose k = 0"
    by (simp only: length_fixed_weight)
  also have "\<dots> \<longleftrightarrow> n < k"
    by (rule binomial_eq_0_iff)
  finally show ?thesis .
qed

lemma distinct_brgc: "distinct (brgc n)"
proof (induction n)
  case 0
  then show ?case by (simp add: brgc_def)
next
  case (Suc n)
  have "distinct (map (\<lambda>x. 2 ^ n + x) (rev (brgc n)))"
    using Suc by (simp add: distinct_map)
  moreover have "set (brgc n) \<inter> set (map (\<lambda>x. 2 ^ n + x) (rev (brgc n))) = {}"
    using brgc_less [of _ n] by fastforce
  ultimately show ?case
    using Suc by (simp add: brgc_Suc)
qed

lemma distinct_fixed_weight: "distinct (fixed_weight n k)"
  by (simp add: fixed_weight_def distinct_brgc)


lemma pc_xor_high_right:
  "x < 2 ^ n \<Longrightarrow> y < 2 ^ n \<Longrightarrow> pc (x XOR (2 ^ n + y)) = Suc (pc (x XOR y))"
  by (simp only: xor_high_right pc_add_pow xor_less_pow)

lemma pc_xor_high_both:
  "x < 2 ^ n \<Longrightarrow> y < 2 ^ n \<Longrightarrow> pc ((2 ^ n + x) XOR (2 ^ n + y)) = pc (x XOR y)"
  by (simp only: xor_high_both)

lemma hd_eq_last_singleton: "length xs = 1 \<Longrightarrow> hd xs = last xs"
  by (cases xs) auto

lemma fixed_weight_ends_0: "hd (fixed_weight n 0) = last (fixed_weight n 0)"
  by (rule hd_eq_last_singleton) (simp add: length_fixed_weight)

lemma fixed_weight_ends_top: "hd (fixed_weight n n) = last (fixed_weight n n)"
  by (rule hd_eq_last_singleton) (simp add: length_fixed_weight)

lemma hd_fixed_weight_less: "k \<le> n \<Longrightarrow> hd (fixed_weight n k) < 2 ^ n"
  by (rule fixed_weight_less [of _ n k]) (simp add: fixed_weight_eq_Nil_iff)

lemma last_fixed_weight_less: "k \<le> n \<Longrightarrow> last (fixed_weight n k) < 2 ^ n"
  by (rule fixed_weight_less [of _ n k]) (simp add: fixed_weight_eq_Nil_iff)

lemma hd_fixed_weight_Suc:
  "k \<le> n \<Longrightarrow> hd (fixed_weight (Suc n) (Suc k))
     = (if Suc k \<le> n then hd (fixed_weight n (Suc k)) else 2 ^ n + last (fixed_weight n k))"
  by (simp add: fixed_weight_Suc_Suc hd_append fixed_weight_eq_Nil_iff hd_map hd_rev)

lemma last_fixed_weight_Suc:
  "k \<le> n \<Longrightarrow> last (fixed_weight (Suc n) (Suc k)) = 2 ^ n + hd (fixed_weight n k)"
  by (simp add: fixed_weight_Suc_Suc fixed_weight_eq_Nil_iff last_map last_rev)

lemma pc_xor_self_high: "x < 2 ^ n \<Longrightarrow> pc (x XOR (2 ^ n + x)) = 1"
  by (simp add: pc_xor_high_right)

lemma fixed_weight_heads_adjacent:
  "k < n \<Longrightarrow> pc (hd (fixed_weight n k) XOR hd (fixed_weight n (Suc k))) = 1"
proof (induction n arbitrary: k)
  case 0
  then show ?case by simp
next
  case (Suc n)
  show ?case
  proof (cases k)
    case 0
    show ?thesis
    proof (cases "1 \<le> n")
      case True
      then have "pc (hd (fixed_weight n 0) XOR hd (fixed_weight n (Suc 0))) = 1"
        by (intro Suc.IH) simp
      with True show ?thesis
        by (simp add: 0 fixed_weight_Suc_0 hd_fixed_weight_Suc)
    next
      case False
      then have n: "n = 0" by simp
      have "pc (hd (fixed_weight n 0) XOR (2 ^ n + hd (fixed_weight n 0))) = 1"
        by (rule pc_xor_self_high) (simp add: hd_fixed_weight_less)
      then show ?thesis
        using n by (simp add: 0 fixed_weight_Suc_0 hd_fixed_weight_Suc flip: fixed_weight_ends_0)
    qed
  next
    case (Suc k')
    with Suc.prems have k': "k' < n" by simp
    then have h1: "hd (fixed_weight (Suc n) (Suc k')) = hd (fixed_weight n (Suc k'))"
      by (simp add: hd_fixed_weight_Suc)
    show ?thesis
    proof (cases "Suc (Suc k') \<le> n")
      case True
      then have "hd (fixed_weight (Suc n) (Suc (Suc k'))) = hd (fixed_weight n (Suc (Suc k')))"
        by (simp add: hd_fixed_weight_Suc)
      moreover have "pc (hd (fixed_weight n (Suc k')) XOR hd (fixed_weight n (Suc (Suc k')))) = 1"
        using True by (intro Suc.IH) simp
      ultimately show ?thesis
        by (simp only: Suc h1)
    next
      case False
      with k' have n: "Suc k' = n" by simp
      have "hd (fixed_weight (Suc n) (Suc n)) = 2 ^ n + last (fixed_weight n n)"
        using n by (simp add: hd_fixed_weight_Suc)
      also have "\<dots> = 2 ^ n + hd (fixed_weight n n)"
        by (simp only: fixed_weight_ends_top)
      finally have "hd (fixed_weight (Suc n) (Suc n)) = 2 ^ n + hd (fixed_weight n n)" .
      moreover have "pc (hd (fixed_weight n n) XOR (2 ^ n + hd (fixed_weight n n))) = 1"
        by (rule pc_xor_self_high) (simp add: hd_fixed_weight_less)
      ultimately show ?thesis
        using h1 n by (simp add: Suc)
    qed
  qed
qed

lemma fixed_weight_lasts_adjacent:
  "k < n \<Longrightarrow> pc (last (fixed_weight n k) XOR last (fixed_weight n (Suc k))) = 1"
proof (cases n)
  case 0
  then show "k < n \<Longrightarrow> ?thesis" by simp
next
  case (Suc m)
  assume "k < n"
  with Suc have km: "k \<le> m" by simp
  show ?thesis
  proof (cases k)
    case 0
    have "pc (hd (fixed_weight m 0) XOR (2 ^ m + hd (fixed_weight m 0))) = 1"
      by (rule pc_xor_self_high) (simp add: hd_fixed_weight_less)
    then show ?thesis
      by (simp add: Suc 0 fixed_weight_Suc_0 last_fixed_weight_Suc flip: fixed_weight_ends_0)
  next
    case (Suc k')
    with km have k': "k' < m" by simp
    have "pc ((2 ^ m + hd (fixed_weight m k')) XOR (2 ^ m + hd (fixed_weight m (Suc k'))))
        = pc (hd (fixed_weight m k') XOR hd (fixed_weight m (Suc k')))"
      using k' by (intro pc_xor_high_both hd_fixed_weight_less) simp_all
    also have "\<dots> = 1"
      using k' by (rule fixed_weight_heads_adjacent)
    finally show ?thesis
      using k' by (simp add: \<open>n = Suc m\<close> Suc last_fixed_weight_Suc)
  qed
qed

lemma fixed_weight_successively:
  "successively (\<lambda>x y. pc (x XOR y) = 2) (fixed_weight n k)"
proof (induction n arbitrary: k)
  case 0
  then show ?case by (simp add: fixed_weight_0)
next
  case (Suc n)
  show ?case
  proof (cases k)
    case 0
    with Suc show ?thesis by (simp add: fixed_weight_Suc_0)
  next
    case (Suc k')
    have rev_part: "successively (\<lambda>x y. pc (x XOR y) = 2)
        (map (\<lambda>x. 2 ^ n + x) (rev (fixed_weight n k')))"
      unfolding successively_map successively_rev
    proof (rule successively_mono [OF Suc.IH [of k']])
      fix x y
      assume "x \<in> set (fixed_weight n k')" "y \<in> set (fixed_weight n k')"
      then have "x < 2 ^ n" "y < 2 ^ n"
        by (auto dest: fixed_weight_less)
      then have "pc ((2 ^ n + y) XOR (2 ^ n + x)) = pc (x XOR y)"
        by (simp add: pc_xor_high_both xor.commute)
      moreover assume "pc (x XOR y) = 2"
      ultimately show "pc ((2 ^ n + y) XOR (2 ^ n + x)) = 2"
        by simp
    qed
    have junction: "pc (last (fixed_weight n (Suc k')) XOR (2 ^ n + last (fixed_weight n k'))) = 2"
      if "Suc k' \<le> n"
    proof -
      from that have "k' < n" by simp
      then have "pc (last (fixed_weight n k') XOR last (fixed_weight n (Suc k'))) = 1"
        by (rule fixed_weight_lasts_adjacent)
      moreover have "pc (last (fixed_weight n (Suc k')) XOR (2 ^ n + last (fixed_weight n k')))
          = Suc (pc (last (fixed_weight n (Suc k')) XOR last (fixed_weight n k')))"
        using that by (intro pc_xor_high_right last_fixed_weight_less) simp_all
      ultimately show ?thesis
        by (simp add: xor.commute)
    qed
    show ?thesis
      using Suc.IH [of "Suc k'"] rev_part junction
      by (auto simp: Suc fixed_weight_Suc_Suc successively_append_iff fixed_weight_eq_Nil_iff
          hd_map hd_rev)
  qed
qed

lemma successively_nth:
  "successively P xs \<Longrightarrow> Suc i < length xs \<Longrightarrow> P (xs ! i) (xs ! Suc i)"
proof (induction xs arbitrary: i)
  case Nil
  then show ?case by simp
next
  case (Cons a xs)
  show ?case
  proof (cases i)
    case 0
    with Cons.prems show ?thesis
      by (cases xs) auto
  next
    case (Suc j)
    with Cons show ?thesis
      by (auto simp: successively_Cons)
  qed
qed

lemma pc_fixed_weight: "x \<in> set (fixed_weight n k) \<Longrightarrow> pc x = k"
  by (simp add: fixed_weight_def)

lemma pc_le: "x < 2 ^ n \<Longrightarrow> pc x \<le> n"
proof (induction n arbitrary: x)
  case 0
  then show ?case by simp
next
  case (Suc n)
  then have "x div 2 < 2 ^ n" by auto
  then have "pc (x div 2) \<le> n" by (rule Suc.IH)
  moreover have "x mod 2 \<le> 1" by simp
  ultimately show ?case
    by (subst pc_rec) linarith
qed

lemma pc_unat_le: "pc (unat x) \<le> 32" for x :: u32
  by (rule pc_le) (use unsigned_less [of x] in simp)

lemma unat_shiftr1: "unat (drop_bit 1 x) = unat x div 2" for x :: u32
  by (simp add: unat_drop_bit_eq drop_bit_Suc unat_div)

lemma and_1_of_nat: "x AND 1 = of_nat (unat x mod 2)" for x :: u32
  by (simp add: and_one_eq  unat_mod word_arith_nat_mod)

lemma count_bits_loop_eq: "count_bits_loop x c = c + of_nat (pc (unat x))"
proof (induction x c rule: count_bits_loop.induct)
  case (1 x count)
  show ?case
  proof (cases "x = 0")
    case True
    then show ?thesis by (subst count_bits_loop.simps) simp
  next
    case False
    then have "count_bits_loop x count = count_bits_loop (drop_bit 1 x) (count + (x AND 1))"
      by (subst count_bits_loop.simps) simp
    also have "\<dots> = count + (x AND 1) + of_nat (pc (unat (drop_bit 1 x)))"
      using False by (rule 1)
    also have "\<dots> = count + (of_nat (unat x mod 2) + of_nat (pc (unat x div 2)))"
      by (simp only: unat_shiftr1 and_1_of_nat add.assoc)
    also have "\<dots> = count + of_nat (unat x mod 2 + pc (unat x div 2))"
      by (simp only: of_nat_add)
    finally show ?thesis
      by (simp only: pc_rec [symmetric])
  qed
qed

lemma count_bits_eq: "count_bits x = of_nat (pc (unat x))"
  by (simp add: count_bits_def count_bits_loop_eq)

lemma unat_count_bits: "unat (count_bits x) = pc (unat x)"
proof -
  have "pc (unat x) < 2 ^ 32"
    using pc_unat_le [of x] by simp
  then show ?thesis
    by (simp add: count_bits_eq unat_of_nat take_bit_nat_eq_self)
qed

lemma unat_gray: "unat (gray x) = gray_nat (unat x)"
  by (simp only: gray_def gray_nat_def unsigned_xor_eq unat_shiftr1)

lemma count_bits_eq_of_nat_iff:
  "k \<le> 32 \<Longrightarrow> count_bits x = of_nat k \<longleftrightarrow> pc (unat x) = k"
proof -
  assume "k \<le> 32"
  then have "k < 2 ^ 32"
    by simp
  then have "unat (of_nat k :: u32) = k"
    by (simp add: unat_of_nat take_bit_nat_eq_self)
  moreover have "count_bits x = of_nat k \<longleftrightarrow> unat (count_bits x) = unat (of_nat k :: u32)"
    by (simp only: word_unat_eq_iff)
  ultimately show ?thesis
    by (simp only: unat_count_bits)
qed

lemma count_bits_gray_iff:
  "0 \<le> pick \<Longrightarrow> pick \<le> 32 \<Longrightarrow>
    count_bits (gray x) = word_of_int pick \<longleftrightarrow> pc (gray_nat (unat x)) = nat pick"
proof -
  assume p: "0 \<le> pick" "pick \<le> 32"
  then have "nat pick \<le> 32"
    by simp
  then have "count_bits (gray x) = of_nat (nat pick) \<longleftrightarrow> pc (unat (gray x)) = nat pick"
    by (rule count_bits_eq_of_nat_iff)
  with p(1) show ?thesis
    by (simp only: word_of_int_nat unat_gray)
qed

lemma unat_one_shl: "0 \<le> sz \<Longrightarrow> sz \<le> 31 \<Longrightarrow> unat (one_shl sz) = 2 ^ nat sz"
proof -
  assume "0 \<le> sz" "sz \<le> 31"
  then have "nat sz < 32" by simp
  then have "(2::nat) ^ nat sz < 2 ^ 32"
    by (intro power_strict_increasing) simp_all
  then have "unat (of_nat (2 ^ nat sz) :: u32) = 2 ^ nat sz"
    by (simp only: unat_of_nat) simp
  then show ?thesis
    by (simp add: one_shl_def)
qed

lemma unat_succ: "unat i < b \<Longrightarrow> b \<le> 2 ^ 31 \<Longrightarrow> unat (i + 1) = Suc (unat i)" for i :: u32
  by (simp add: unat_word_ariths)

text \<open>What the two loops return, read on naturals.\<close>

lemma forward_search_spec:
  "0 \<le> sz \<Longrightarrow> sz \<le> 31 \<Longrightarrow> 0 \<le> pick \<Longrightarrow> pick \<le> 32 \<Longrightarrow> unat i < 2 ^ nat sz \<Longrightarrow>
    (case forward_search sz pick i of
       None \<Rightarrow> (\<forall>m. unat i < m \<and> m < 2 ^ nat sz \<longrightarrow> pc (gray_nat m) \<noteq> nat pick)
     | Some j \<Rightarrow> unat i < unat j \<and> unat j < 2 ^ nat sz \<and> pc (gray_nat (unat j)) = nat pick
         \<and> (\<forall>m. unat i < m \<and> m < unat j \<longrightarrow> pc (gray_nat m) \<noteq> nat pick))"
proof (induction sz pick i rule: forward_search.induct)
  case (1 sz pick i)
  have b: "(2::nat) ^ nat sz \<le> 2 ^ 31"
    using "1.prems"(1,2) by (intro power_increasing) simp_all
  have un: "unat (i + 1) = Suc (unat i)"
    using "1.prems"(5) b by (rule unat_succ)
  have ub: "unat (one_shl sz) = 2 ^ nat sz"
    using "1.prems"(1,2) by (rule unat_one_shl)
  show ?case
  proof (cases "i + 1 = one_shl sz")
    case True
    then have "Suc (unat i) = 2 ^ nat sz"
      using un ub by simp
    moreover from True have "forward_search sz pick i = None"
      by (subst forward_search.simps) simp
    ultimately show ?thesis
      by auto
  next
    case False
    then have "unat (i + 1) \<noteq> unat (one_shl sz)"
      by (simp only: word_unat_eq_iff not_False_eq_True)
    then have lt: "unat (i + 1) < 2 ^ nat sz"
      using un ub "1.prems"(5) by simp
    show ?thesis
    proof (cases "count_bits (gray (i + 1)) = word_of_int pick")
      case True
      then have "pc (gray_nat (unat (i + 1))) = nat pick"
        using "1.prems"(3,4) by (simp only: count_bits_gray_iff)
      moreover from True False have "forward_search sz pick i = Some (i + 1)"
        by (subst forward_search.simps) simp
      ultimately show ?thesis
        using lt un by auto
    next
      case neq: False
      then have nq: "pc (gray_nat (Suc (unat i))) \<noteq> nat pick"
        using "1.prems"(3,4) un by (simp only: count_bits_gray_iff) simp
      from neq False have eq: "forward_search sz pick i = forward_search sz pick (i + 1)"
        by (subst forward_search.simps) simp
      have IH: "case forward_search sz pick (i + 1) of
          None \<Rightarrow> (\<forall>m. unat (i + 1) < m \<and> m < 2 ^ nat sz \<longrightarrow> pc (gray_nat m) \<noteq> nat pick)
        | Some j \<Rightarrow> unat (i + 1) < unat j \<and> unat j < 2 ^ nat sz \<and> pc (gray_nat (unat j)) = nat pick
            \<and> (\<forall>m. unat (i + 1) < m \<and> m < unat j \<longrightarrow> pc (gray_nat m) \<noteq> nat pick)"
        using False neq "1.prems"(1-4) lt by (intro "1.IH") simp_all
      have step: "m = Suc (unat i) \<or> Suc (unat i) < m" if "unat i < m" for m
        using that by linarith
      show ?thesis
        unfolding eq using IH nq step un
        by (auto split: option.splits)
    qed
  qed
qed

lemma reverse_search_spec:
  "0 \<le> pick \<Longrightarrow> pick \<le> 32 \<Longrightarrow> 0 < unat i \<Longrightarrow>
    (case reverse_search pick i of
       None \<Rightarrow> (\<forall>m. 0 < m \<and> m < unat i \<longrightarrow> pc (gray_nat m) \<noteq> nat pick)
     | Some j \<Rightarrow> 0 < unat j \<and> unat j < unat i \<and> pc (gray_nat (unat j)) = nat pick
         \<and> (\<forall>m. unat j < m \<and> m < unat i \<longrightarrow> pc (gray_nat m) \<noteq> nat pick))"
proof (induction pick i rule: reverse_search.induct)
  case (1 pick i)
  from "1.prems"(3) have i0: "i \<noteq> 0"
    by (simp add: unat_gt_0)
  then have un: "unat (i - 1) = unat i - 1"
    by (rule unat_minus_one)
  show ?case
  proof (cases "i - 1 = 0")
    case True
    then have "unat i = 1"
      using un "1.prems"(3) by simp
    moreover from True have "reverse_search pick i = None"
      by (subst reverse_search.simps) simp
    ultimately show ?thesis
      by auto
  next
    case False
    then have pos: "0 < unat (i - 1)"
      by (simp add: unat_gt_0)
    show ?thesis
    proof (cases "count_bits (gray (i - 1)) = word_of_int pick")
      case True
      then have "pc (gray_nat (unat (i - 1))) = nat pick"
        using "1.prems"(1,2) by (simp only: count_bits_gray_iff)
      moreover from True False have "reverse_search pick i = Some (i - 1)"
        by (subst reverse_search.simps) simp
      ultimately show ?thesis
        using pos un by auto
    next
      case neq: False
      then have nq: "pc (gray_nat (unat i - 1)) \<noteq> nat pick"
        using "1.prems"(1,2) un by (simp only: count_bits_gray_iff) simp
      from neq False have eq: "reverse_search pick i = reverse_search pick (i - 1)"
        by (subst reverse_search.simps) simp
      have IH: "case reverse_search pick (i - 1) of
          None \<Rightarrow> (\<forall>m. 0 < m \<and> m < unat (i - 1) \<longrightarrow> pc (gray_nat m) \<noteq> nat pick)
        | Some j \<Rightarrow> 0 < unat j \<and> unat j < unat (i - 1) \<and> pc (gray_nat (unat j)) = nat pick
            \<and> (\<forall>m. unat j < m \<and> m < unat (i - 1) \<longrightarrow> pc (gray_nat m) \<noteq> nat pick)"
        using False neq "1.prems"(1,2) pos by (intro "1.IH") simp_all
      have step: "m = unat i - 1 \<or> m < unat i - 1" if "m < unat i" for m
        using that by linarith
      show ?thesis
        unfolding eq using IH nq step un
        by (auto split: option.splits)
    qed
  qed
qed

definition accepted_indices :: "nat \<Rightarrow> nat \<Rightarrow> nat list" where
  "accepted_indices n k = filter (\<lambda>i. pc (gray_nat i) = k) [0..<2 ^ n]"

lemma map_gray_accepted_indices: "map gray_nat (accepted_indices n k) = fixed_weight n k"
  by (simp add: accepted_indices_def fixed_weight_def brgc_def filter_map comp_def)

lemma length_accepted_indices: "length (accepted_indices n k) = n choose k"
  using length_fixed_weight [of n k] by (simp flip: map_gray_accepted_indices)

lemma sorted_accepted_indices: "sorted_wrt (<) (accepted_indices n k)"
  unfolding accepted_indices_def by (rule sorted_wrt_filter) simp

lemma set_accepted_indices:
  "set (accepted_indices n k) = {i. i < 2 ^ n \<and> pc (gray_nat i) = k}"
  by (auto simp: accepted_indices_def)

lemma gray_nat_0 [simp]: "gray_nat 0 = 0"
  by (simp add: gray_nat_def)

lemma accepted_indices_pos: "0 < k \<Longrightarrow> i \<in> set (accepted_indices n k) \<Longrightarrow> 0 < i"
  by (rule ccontr) (auto simp: set_accepted_indices)

text \<open>Neighbours in a strictly increasing list.\<close>

lemma sorted_nth_less_iff:
  "sorted_wrt (<) xs \<Longrightarrow> i < length xs \<Longrightarrow> j < length xs \<Longrightarrow> xs ! i < xs ! j \<longleftrightarrow> i < j"
  for xs :: "nat list"
  by (metis sorted_wrt_nth_less less_asym' linorder_neqE_nat order_less_irrefl)

lemma sorted_next:
  fixes xs :: "nat list"
  assumes "sorted_wrt (<) xs" "r < length xs" "x \<in> set xs" "xs ! r < x"
    and "\<forall>m. xs ! r < m \<and> m < x \<longrightarrow> m \<notin> set xs"
  shows "Suc r < length xs \<and> x = xs ! Suc r"
proof -
  from assms(3) obtain q where q: "q < length xs" "xs ! q = x"
    by (auto simp: in_set_conv_nth)
  with assms(1,2,4) have rq: "r < q"
    using sorted_nth_less_iff [of xs r q] by auto
  then have s: "Suc r < length xs"
    using q(1) by simp
  have "\<not> Suc r < q"
  proof
    assume "Suc r < q"
    then have "xs ! Suc r < x"
      using assms(1) q s sorted_nth_less_iff [of xs "Suc r" q] by auto
    moreover have "xs ! r < xs ! Suc r"
      using assms(1,2) s by (simp add: sorted_nth_less_iff)
    ultimately show False
      using assms(5) s by (meson nth_mem)
  qed
  with rq have "q = Suc r" by simp
  with q s show ?thesis by simp
qed

lemma sorted_no_next:
  fixes xs :: "nat list"
  assumes "sorted_wrt (<) xs" "r < length xs" "\<forall>m. xs ! r < m \<longrightarrow> m \<notin> set xs"
  shows "\<not> Suc r < length xs"
proof
  assume s: "Suc r < length xs"
  then have "xs ! r < xs ! Suc r"
    using assms(1,2) by (simp add: sorted_nth_less_iff)
  then show False
    using assms(3) s by (meson nth_mem)
qed

lemma sorted_prev:
  fixes xs :: "nat list"
  assumes "sorted_wrt (<) xs" "r < length xs" "x \<in> set xs" "x < xs ! r"
    and "\<forall>m. x < m \<and> m < xs ! r \<longrightarrow> m \<notin> set xs"
  shows "0 < r \<and> x = xs ! (r - 1)"
proof -
  from assms(3) obtain q where q: "q < length xs" "xs ! q = x"
    by (auto simp: in_set_conv_nth)
  with assms(1,2,4) have qr: "q < r"
    using sorted_nth_less_iff [of xs q r] by auto
  have "\<not> q < r - 1"
  proof
    assume a: "q < r - 1"
    then have "x < xs ! (r - 1)"
      using assms(1,2) q sorted_nth_less_iff [of xs q "r - 1"] by auto
    moreover have "xs ! (r - 1) < xs ! r"
      using assms(1,2) qr by (simp add: sorted_nth_less_iff)
    moreover have "xs ! (r - 1) \<in> set xs"
      using assms(2) by (intro nth_mem) auto
    ultimately show False
      using assms(5) by blast
  qed
  with qr have "q = r - 1" by simp
  with q qr show ?thesis by auto
qed

lemma sorted_no_prev:
  fixes xs :: "nat list"
  assumes "sorted_wrt (<) xs" "r < length xs" "\<forall>m. m < xs ! r \<longrightarrow> m \<notin> set xs"
  shows "r = 0"
proof (rule ccontr)
  assume "r \<noteq> 0"
  then have "0 < r"
    by simp
  with assms(1) have "xs ! 0 < xs ! r"
    using assms(2) by (rule sorted_wrt_nth_less)
  moreover have "xs ! 0 \<in> set xs"
    using assms(2) by (intro nth_mem) auto
  ultimately show False
    using assms(3) by blast
qed

lemma sorted_first:
  fixes xs :: "nat list"
  assumes "sorted_wrt (<) xs" "x \<in> set xs" "\<forall>m. m < x \<longrightarrow> m \<notin> set xs"
  shows "x = xs ! 0"
proof -
  from assms(2) obtain q where q: "q < length xs" "xs ! q = x"
    by (auto simp: in_set_conv_nth)
  with assms(1,3) have "q = 0"
    by (intro sorted_no_prev [of xs q]) simp_all
  with q show ?thesis by simp
qed


text \<open>The generator standing on the \<open>r\<close>-th accepted index.\<close>

definition gen_at :: "int \<Rightarrow> int \<Rightarrow> int \<Rightarrow> nat \<Rightarrow> bool \<Rightarrow> gray_generator_t" where
  "gen_at sz pick c r d =
     \<lparr>size_m = sz, pick_m = pick, reversed_m = d,
      index_m = of_nat (accepted_indices (nat sz) (nat pick) ! r), combinations_m = c\<rparr>"

lemma unat_accepted_index:
  assumes "0 \<le> sz" "sz \<le> 31" "r < length (accepted_indices (nat sz) (nat pick))"
  shows "unat (of_nat (accepted_indices (nat sz) (nat pick) ! r) :: u32)
    = accepted_indices (nat sz) (nat pick) ! r"
proof -
  have "accepted_indices (nat sz) (nat pick) ! r \<in> set (accepted_indices (nat sz) (nat pick))"
    using assms(3) by simp
  then have "accepted_indices (nat sz) (nat pick) ! r < 2 ^ nat sz"
    by (simp add: set_accepted_indices)
  also have "(2::nat) ^ nat sz < 2 ^ 32"
    using assms(1,2) by (intro power_strict_increasing) simp_all
  finally show ?thesis
    by (simp only: unat_of_nat) simp
qed

lemma forward_search_at:
  assumes "0 \<le> sz" "sz \<le> 31" "0 \<le> pick" "pick \<le> 32"
    and r: "r < length (accepted_indices (nat sz) (nat pick))"
  shows "forward_search sz pick (of_nat (accepted_indices (nat sz) (nat pick) ! r))
    = (if Suc r < length (accepted_indices (nat sz) (nat pick))
       then Some (of_nat (accepted_indices (nat sz) (nat pick) ! Suc r)) else None)"
proof -
  define xs where "xs = accepted_indices (nat sz) (nat pick)"
  define i :: u32 where "i = of_nat (xs ! r)"
  have srt: "sorted_wrt (<) xs"
    unfolding xs_def by (rule sorted_accepted_indices)
  have mem: "m \<in> set xs \<longleftrightarrow> m < 2 ^ nat sz \<and> pc (gray_nat m) = nat pick" for m
    by (simp add: xs_def set_accepted_indices)
  have r': "r < length xs"
    using r by (simp add: xs_def)
  have ui: "unat i = xs ! r"
    unfolding i_def xs_def using assms(1,2) r by (rule unat_accepted_index)
  have "xs ! r \<in> set xs"
    using r' by simp
  then have lt: "unat i < 2 ^ nat sz"
    by (simp add: mem ui)
  note spec = forward_search_spec [OF assms(1-4) lt]
  show ?thesis
  proof (cases "forward_search sz pick i")
    case None
    with spec have "\<forall>m. xs ! r < m \<longrightarrow> m \<notin> set xs"
      by (auto simp: mem ui)
    with srt r' have "\<not> Suc r < length xs"
      by (rule sorted_no_next)
    with None show ?thesis
      by (simp add: i_def xs_def)
  next
    case (Some j)
    with spec have j: "xs ! r < unat j" "unat j \<in> set xs"
        "\<forall>m. xs ! r < m \<and> m < unat j \<longrightarrow> m \<notin> set xs"
      by (auto simp: mem ui)
    with srt r' have "Suc r < length xs \<and> unat j = xs ! Suc r"
      by (intro sorted_next) simp_all
    then have "Suc r < length xs" and "j = of_nat (xs ! Suc r)"
      using of_nat_unat [of j, where 'a = "32 word"] by auto
    with Some show ?thesis
      by (simp add: i_def xs_def)
  qed
qed

lemma reverse_search_at:
  assumes "0 \<le> sz" "sz \<le> 31" "0 < pick" "pick \<le> 32"
    and r: "r < length (accepted_indices (nat sz) (nat pick))"
  shows "reverse_search pick (of_nat (accepted_indices (nat sz) (nat pick) ! r))
    = (if 0 < r then Some (of_nat (accepted_indices (nat sz) (nat pick) ! (r - 1))) else None)"
proof -
  define xs where "xs = accepted_indices (nat sz) (nat pick)"
  define i :: u32 where "i = of_nat (xs ! r)"
  have srt: "sorted_wrt (<) xs"
    unfolding xs_def by (rule sorted_accepted_indices)
  have mem: "m \<in> set xs \<longleftrightarrow> m < 2 ^ nat sz \<and> pc (gray_nat m) = nat pick" for m
    by (simp add: xs_def set_accepted_indices)
  have r': "r < length xs"
    using r by (simp add: xs_def)
  have ui: "unat i = xs ! r"
    unfolding i_def xs_def using assms(1,2) r by (rule unat_accepted_index)
  have in_set: "xs ! r \<in> set xs"
    using r' by simp
  then have lt: "xs ! r < 2 ^ nat sz"
    by (simp add: mem)
  have "0 < nat pick"
    using assms(3) by simp
  then have pos: "0 < unat i"
    using in_set unfolding ui xs_def by (rule accepted_indices_pos)
  have p0: "0 \<le> pick"
    using assms(3) by simp
  note spec = reverse_search_spec [OF p0 assms(4) pos]
  have zero: "pc (gray_nat 0) \<noteq> nat pick"
    using assms(3) by simp
  show ?thesis
  proof (cases "reverse_search pick i")
    case None
    with spec have none: "\<forall>m. 0 < m \<and> m < xs ! r \<longrightarrow> pc (gray_nat m) \<noteq> nat pick"
      by (simp add: ui)
    have "\<forall>m. m < xs ! r \<longrightarrow> m \<notin> set xs"
    proof (intro allI impI)
      fix m
      assume "m < xs ! r"
      with none zero have "pc (gray_nat m) \<noteq> nat pick"
        by (cases "m = 0") simp_all
      then show "m \<notin> set xs"
        by (simp add: mem)
    qed
    with srt r' have "r = 0"
      by (rule sorted_no_prev)
    with None show ?thesis
      by (simp add: i_def xs_def)
  next
    case (Some j)
    with spec lt have j: "unat j < xs ! r" "unat j \<in> set xs"
        "\<forall>m. unat j < m \<and> m < xs ! r \<longrightarrow> m \<notin> set xs"
      by (auto simp: mem ui)
    with srt r' have "0 < r \<and> unat j = xs ! (r - 1)"
      by (intro sorted_prev) simp_all
    then have "0 < r" and "j = of_nat (xs ! (r - 1))"
      using of_nat_unat [of j, where 'a = "32 word"] by auto
    with Some show ?thesis
      by (simp add: i_def xs_def)
  qed
qed

lemma gen_next_forward:
  assumes "0 \<le> sz" "sz \<le> 31" "0 \<le> pick" "pick \<le> 32"
    and "r < length (accepted_indices (nat sz) (nat pick))"
  shows "gen_next (gen_at sz pick c r False)
    = (if Suc r < length (accepted_indices (nat sz) (nat pick))
       then gen_at sz pick c (Suc r) False else gen_at sz pick c r True)"
  using forward_search_at [OF assms] by (simp add: gen_next_def gen_at_def)

lemma gen_accepts_forward:
  assumes "0 \<le> sz" "sz \<le> 31" "0 \<le> pick" "pick \<le> 32"
    and "r < length (accepted_indices (nat sz) (nat pick))"
  shows "gen_accepts (gen_at sz pick c r False)
    \<longleftrightarrow> Suc r < length (accepted_indices (nat sz) (nat pick))"
  using forward_search_at [OF assms] by (simp add: gen_accepts_def gen_at_def)

lemma gen_next_reverse:
  assumes "0 \<le> sz" "sz \<le> 31" "0 < pick" "pick \<le> 32"
    and "r < length (accepted_indices (nat sz) (nat pick))"
  shows "gen_next (gen_at sz pick c r True)
    = (if 0 < r then gen_at sz pick c (r - 1) True else gen_at sz pick c r False)"
  using reverse_search_at [OF assms] by (simp add: gen_next_def gen_at_def)

lemma gen_accepts_reverse:
  assumes "0 \<le> sz" "sz \<le> 31" "0 < pick" "pick \<le> 32"
    and "r < length (accepted_indices (nat sz) (nat pick))"
  shows "gen_accepts (gen_at sz pick c r True) \<longleftrightarrow> 0 < r"
  using reverse_search_at [OF assms] by (simp add: gen_accepts_def gen_at_def)

text \<open>The factorial loop computes the factorial modulo \<open>2 ^ 32\<close>.\<close>

lemma fact_loop_eq: "fact_loop x f = f * of_nat (fact (unat x))"
proof (induction x f rule: fact_loop.induct)
  case (1 x f)
  show ?case
  proof (cases "1 < x")
    case True
    then have "1 < unat x"
      by (simp add: word_less_nat_alt)
    then have x0: "x \<noteq> 0" and pos: "0 < unat x"
      by auto
    have "fact_loop x f = fact_loop (x - 1) (f * x)"
      using True by (subst fact_loop.simps) simp
    also have "\<dots> = f * x * of_nat (fact (unat (x - 1)))"
      using True by (rule 1)
    also have "unat (x - 1) = unat x - 1"
      using x0 by (rule unat_minus_one)
    also have "f * x * of_nat (fact (unat x - 1)) = f * (of_nat (unat x) * of_nat (fact (unat x - 1)))"
      by (simp add: mult.assoc)
    also have "of_nat (unat x) * of_nat (fact (unat x - 1)) = (of_nat (unat x * fact (unat x - 1)) :: u32)"
      by (simp only: of_nat_mult)
    also have "unat x * fact (unat x - 1) = fact (unat x)"
      using pos by (simp add: fact_reduce)
    finally show ?thesis .
  next
    case False
    then have "unat x \<le> 1"
      by (simp add: word_less_nat_alt)
    then have "unat x = 0 \<or> unat x = 1"
      by linarith
    then have "(fact (unat x) :: nat) = 1"
      by auto
    moreover have "fact_loop x f = f"
      using False by (subst fact_loop.simps) simp
    ultimately show ?thesis
      by simp
  qed
qed

lemma fact_u32_eq: "fact_u32 x = of_nat (fact (unat x))"
  by (simp add: fact_u32_def fact_loop_eq)

lemma fact_u32_of_nat: "n < 2 ^ 32 \<Longrightarrow> fact_u32 (of_nat n) = of_nat (fact n)"
  by (simp add: fact_u32_eq unat_of_nat)

lemma fact_31_not_dvd: "\<not> (2::nat) ^ 32 dvd fact 31"
  by (simp add: fact_numeral)

lemma fact_34_dvd: "(2::nat) ^ 32 dvd fact 34"
  by (simp add: fact_numeral)

lemma fact_12_less: "(fact 12 :: nat) < 2 ^ 31"
  by (simp add: fact_numeral)

definition combinations_of :: "int \<Rightarrow> int \<Rightarrow> int" where
  "combinations_of sz pick =
     sint (fact_u32 (word_of_int sz) div (fact_u32 (word_of_int pick) * fact_u32 (word_of_int (sz - pick))))"

lemma fact_product_u32:
  assumes "0 \<le> pick" "pick \<le> sz" "sz \<le> 31"
  shows "fact_u32 (word_of_int pick) * fact_u32 (word_of_int (sz - pick))
    = of_nat (fact (nat pick) * fact (nat sz - nat pick))"
proof -
  have a: "nat pick < 2 ^ 32"
    using assms by simp
  have b: "nat sz - nat pick < 2 ^ 32"
    using assms by simp
  have c: "word_of_int pick = (of_nat (nat pick) :: u32)"
    using assms(1) by (rule word_of_int_nat)
  have "0 \<le> sz - pick"
    using assms by simp
  then have "word_of_int (sz - pick) = (of_nat (nat (sz - pick)) :: u32)"
    by (rule word_of_int_nat)
  moreover have "nat (sz - pick) = nat sz - nat pick"
    using assms by simp
  ultimately have d: "word_of_int (sz - pick) = (of_nat (nat sz - nat pick) :: u32)"
    by simp
  show ?thesis
    unfolding c d fact_u32_of_nat [OF a] fact_u32_of_nat [OF b] by (simp only: of_nat_mult)
qed

lemma divisor_nonzero:
  assumes "0 \<le> pick" "pick \<le> sz" "sz \<le> 31"
  shows "fact_u32 (word_of_int pick) * fact_u32 (word_of_int (sz - pick)) \<noteq> 0"
proof
  assume "fact_u32 (word_of_int pick) * fact_u32 (word_of_int (sz - pick)) = 0"
  then have "(of_nat (fact (nat pick) * fact (nat sz - nat pick)) :: u32) = 0"
    using assms by (simp only: fact_product_u32)
  then have "2 ^ LENGTH(32) dvd (fact (nat pick) * fact (nat sz - nat pick) :: nat)"
    by (simp only: word_of_nat_eq_0_iff)
  then have "2 ^ 32 dvd (fact (nat pick) * fact (nat sz - nat pick) :: nat)"
    by simp
  moreover have "(fact (nat pick) * fact (nat sz - nat pick) :: nat) dvd fact (nat sz)"
    using assms by (intro choose_dvd) simp
  moreover have "(fact (nat sz) :: nat) dvd fact 31"
    using assms by (intro fact_dvd) simp
  ultimately have "(2::nat) ^ 32 dvd fact 31"
    by (meson dvd_trans)
  then show False
    using fact_31_not_dvd by simp
qed

lemma accepted_indices_nonempty:
  "0 \<le> pick \<Longrightarrow> pick \<le> sz \<Longrightarrow> 0 < length (accepted_indices (nat sz) (nat pick))"
  by (simp add: length_accepted_indices)

lemma gray_generator_init_eq:
  assumes "0 < pick" "pick \<le> sz" "sz \<le> 31"
  shows "gray_generator_init sz pick = Inr (gen_at sz pick (combinations_of sz pick) 0 False)"
proof -
  define xs where "xs = accepted_indices (nat sz) (nat pick)"
  have sz0: "0 \<le> sz" and p0: "0 \<le> pick" and p32: "pick \<le> 32"
    using assms by simp_all
  have srt: "sorted_wrt (<) xs"
    unfolding xs_def by (rule sorted_accepted_indices)
  have mem: "m \<in> set xs \<longleftrightarrow> m < 2 ^ nat sz \<and> pc (gray_nat m) = nat pick" for m
    by (simp add: xs_def set_accepted_indices)
  have len: "0 < length xs"
    unfolding xs_def using p0 assms(2) by (rule accepted_indices_nonempty)
  have zero: "pc (gray_nat 0) \<noteq> nat pick"
    using assms(1) by simp
  have lt: "unat (0 :: u32) < 2 ^ nat sz"
    by simp
  note spec = forward_search_spec [OF sz0 assms(3) p0 p32 lt]
  have "forward_search sz pick 0 = Some (of_nat (xs ! 0))"
  proof (cases "forward_search sz pick 0")
    case None
    with spec have "\<forall>m. 0 < m \<and> m < 2 ^ nat sz \<longrightarrow> pc (gray_nat m) \<noteq> nat pick"
      by simp
    moreover have "xs ! 0 \<in> set xs"
      using len by (intro nth_mem)
    ultimately show ?thesis
      using zero by (cases "xs ! 0 = 0") (auto simp: mem)
  next
    case (Some j)
    with spec have j: "unat j \<in> set xs"
        and none: "\<forall>m. 0 < m \<and> m < unat j \<longrightarrow> pc (gray_nat m) \<noteq> nat pick"
      by (auto simp: mem)
    have "\<forall>m. m < unat j \<longrightarrow> m \<notin> set xs"
    proof (intro allI impI)
      fix m
      assume "m < unat j"
      with none zero have "pc (gray_nat m) \<noteq> nat pick"
        by (cases "m = 0") simp_all
      then show "m \<notin> set xs"
        by (simp add: mem)
    qed
    with srt j have "unat j = xs ! 0"
      by (rule sorted_first)
    then have "j = of_nat (xs ! 0)"
      using of_nat_unat [of j, where 'a = "32 word"] by auto
    with Some show ?thesis
      by simp
  qed
  then have "gen_next \<lparr>size_m = sz, pick_m = pick, reversed_m = False, index_m = 0,
      combinations_m = combinations_of sz pick\<rparr> = gen_at sz pick (combinations_of sz pick) 0 False"
    by (simp add: gen_next_def gen_at_def xs_def)
  moreover have "fact_u32 (word_of_int pick) * fact_u32 (word_of_int (sz - pick)) \<noteq> 0"
    using p0 assms(2,3) by (rule divisor_nonzero)
  ultimately show ?thesis
    by (simp add: gray_generator_init_def combinations_of_def Let_def)
qed

text \<open>The walk of the generator over its accepted indices.\<close>

lemma forward_phase:
  assumes "0 \<le> sz" "sz \<le> 31" "0 \<le> pick" "pick \<le> 32"
  shows "t < length (accepted_indices (nat sz) (nat pick)) \<Longrightarrow>
    (gen_next ^^ t) (gen_at sz pick c 0 False) = gen_at sz pick c t False"
proof (induction t)
  case 0
  then show ?case by simp
next
  case (Suc t)
  then show ?case
    using gen_next_forward [OF assms, of t c] by simp
qed

lemma forward_flip:
  assumes "0 \<le> sz" "sz \<le> 31" "0 \<le> pick" "pick \<le> 32"
    and "length (accepted_indices (nat sz) (nat pick)) = N" "0 < N"
  shows "(gen_next ^^ N) (gen_at sz pick c 0 False) = gen_at sz pick c (N - 1) True"
proof -
  from assms(6) obtain M where M: "N = Suc M"
    by (cases N) auto
  with assms(5) have len: "length (accepted_indices (nat sz) (nat pick)) = Suc M"
    by simp
  then have "M < length (accepted_indices (nat sz) (nat pick))"
    by simp
  then have "(gen_next ^^ M) (gen_at sz pick c 0 False) = gen_at sz pick c M False"
    by (rule forward_phase [OF assms(1-4)])
  then have "(gen_next ^^ Suc M) (gen_at sz pick c 0 False) = gen_next (gen_at sz pick c M False)"
    by simp
  also have "\<dots> = gen_at sz pick c M True"
    using gen_next_forward [OF assms(1-4), of M c] len by simp
  finally show ?thesis
    using M by simp
qed

lemma reverse_phase:
  assumes "0 \<le> sz" "sz \<le> 31" "0 < pick" "pick \<le> 32"
    and N: "length (accepted_indices (nat sz) (nat pick)) = N"
  shows "t < N \<Longrightarrow>
    (gen_next ^^ (N + t)) (gen_at sz pick c 0 False) = gen_at sz pick c (N - 1 - t) True"
proof (induction t)
  case 0
  have "0 \<le> pick" using assms(3) by simp
  with 0 show ?case
    using forward_flip [OF assms(1,2) _ assms(4) N, of c] by simp
next
  case (Suc t)
  then have "(gen_next ^^ (N + Suc t)) (gen_at sz pick c 0 False)
      = gen_next (gen_at sz pick c (N - 1 - t) True)"
    by simp
  also have "\<dots> = gen_at sz pick c (N - 1 - t - 1) True"
    using Suc.prems gen_next_reverse [OF assms(1-4), of "N - 1 - t" c] N by simp
  finally show ?case
    by simp
qed

lemma full_cycle:
  assumes "0 \<le> sz" "sz \<le> 31" "0 < pick" "pick \<le> 32"
    and N: "length (accepted_indices (nat sz) (nat pick)) = N" "0 < N"
  shows "(gen_next ^^ (2 * N)) (gen_at sz pick c 0 False) = gen_at sz pick c 0 False"
proof -
  from N(2) obtain M where M: "N = Suc M"
    by (cases N) auto
  then have "M < N"
    by simp
  then have "(gen_next ^^ (N + M)) (gen_at sz pick c 0 False) = gen_at sz pick c (N - 1 - M) True"
    by (rule reverse_phase [OF assms(1-5)])
  then have "(gen_next ^^ (N + M)) (gen_at sz pick c 0 False) = gen_at sz pick c 0 True"
    using M by simp
  then have "(gen_next ^^ Suc (N + M)) (gen_at sz pick c 0 False) = gen_next (gen_at sz pick c 0 True)"
    by simp
  also have "\<dots> = gen_at sz pick c 0 False"
    using N gen_next_reverse [OF assms(1-4), of 0 c] by simp
  also have "Suc (N + M) = 2 * N"
    using M by simp
  finally show ?thesis .
qed

lemma reachable_gen_at:
  assumes "0 \<le> sz" "sz \<le> 31" "0 < pick" "pick \<le> 32"
    and N: "length (accepted_indices (nat sz) (nat pick)) = N" "0 < N"
  shows "\<exists>r d. r < N \<and> (gen_next ^^ t) (gen_at sz pick c 0 False) = gen_at sz pick c r d"
proof (induction t)
  case 0
  with N(2) show ?case by auto
next
  case (Suc t)
  then obtain r d where r: "r < N"
      and eq: "(gen_next ^^ t) (gen_at sz pick c 0 False) = gen_at sz pick c r d"
    by blast
  have p0: "0 \<le> pick" using assms(3) by simp
  show ?case
  proof (cases d)
    case True
    then have "(gen_next ^^ Suc t) (gen_at sz pick c 0 False)
        = (if 0 < r then gen_at sz pick c (r - 1) True else gen_at sz pick c r False)"
      using eq r N gen_next_reverse [OF assms(1-4), of r c] by simp
    moreover have "r - 1 < N"
      using r by simp
    ultimately show ?thesis
      using r by (cases "0 < r") (simp_all only: if_True if_False, blast+)
  next
    case False
    then have "(gen_next ^^ Suc t) (gen_at sz pick c 0 False)
        = (if Suc r < N then gen_at sz pick c (Suc r) False else gen_at sz pick c r True)"
      using eq r N gen_next_forward [OF assms(1,2) p0 assms(4), of r c] by simp
    with r show ?thesis
      by (cases "Suc r < N") (simp_all only: if_True if_False, blast+)
  qed
qed

lemma funpow_cycle_mult: "(f ^^ c) x = x \<Longrightarrow> (f ^^ (c * q)) x = x"
  by (induction q) (simp_all add: funpow_add)

lemma funpow_mod_cycle: "(f ^^ c) x = x \<Longrightarrow> (f ^^ t) x = (f ^^ (t mod c)) x"
proof -
  assume c: "(f ^^ c) x = x"
  have "(f ^^ t) x = (f ^^ (t mod c + c * (t div c))) x"
    by simp
  also have "\<dots> = (f ^^ (t mod c)) ((f ^^ (c * (t div c))) x)"
    by (simp only: funpow_add comp_apply)
  also have "(f ^^ (c * (t div c))) x = x"
    using c by (rule funpow_cycle_mult)
  finally show ?thesis .
qed

text \<open>The state after any number of calls, in closed form.\<close>

lemma gen_state_at:
  assumes "0 \<le> sz" "sz \<le> 31" "0 < pick" "pick \<le> 32"
    and N: "length (accepted_indices (nat sz) (nat pick)) = N" "0 < N"
  shows "(gen_next ^^ t) (gen_at sz pick c 0 False)
    = (if t mod (2 * N) < N then gen_at sz pick c (t mod (2 * N)) False
       else gen_at sz pick c (2 * N - 1 - t mod (2 * N)) True)"
proof -
  define u where "u = t mod (2 * N)"
  have p0: "0 \<le> pick" using assms(3) by simp
  have u: "u < 2 * N"
    using N(2) by (simp add: u_def)
  have "(gen_next ^^ t) (gen_at sz pick c 0 False) = (gen_next ^^ u) (gen_at sz pick c 0 False)"
    unfolding u_def by (rule funpow_mod_cycle) (rule full_cycle [OF assms])
  also have "\<dots> = (if u < N then gen_at sz pick c u False else gen_at sz pick c (2 * N - 1 - u) True)"
  proof (cases "u < N")
    case True
    then show ?thesis
      using forward_phase [OF assms(1,2) p0 assms(4), of u c] N(1) by simp
  next
    case False
    then have "u - N < N" and "u = N + (u - N)"
      using u by simp_all
    then have "(gen_next ^^ u) (gen_at sz pick c 0 False) = gen_at sz pick c (N - 1 - (u - N)) True"
      using reverse_phase [OF assms(1-5), of "u - N" c] by simp
    moreover have "N - 1 - (u - N) = 2 * N - 1 - u"
      using False u by simp
    ultimately show ?thesis
      using False by simp
  qed
  finally show ?thesis
    by (simp only: u_def)
qed

lemma dvd_Suc_mod_double: "0 < N \<Longrightarrow> N dvd Suc t \<longleftrightarrow> N dvd Suc (t mod (2 * N))"
proof -
  assume "0 < N"
  have "Suc t mod N = Suc (t mod N) mod N"
    by (simp add: mod_Suc_eq)
  also have "t mod N = t mod (2 * N) mod N"
    by (simp add: mod_mod_cancel)
  also have "Suc (t mod (2 * N) mod N) mod N = Suc (t mod (2 * N)) mod N"
    by (simp add: mod_Suc_eq)
  finally show ?thesis
    by (simp only: dvd_eq_mod_eq_0)
qed

lemma dvd_Suc_small: "u < N \<Longrightarrow> N dvd Suc u \<longleftrightarrow> Suc u = N"
  by (auto dest: dvd_imp_le)

lemma dvd_Suc_second: "N \<le> u \<Longrightarrow> u < 2 * N \<Longrightarrow> N dvd Suc u \<longleftrightarrow> Suc u = 2 * N"
proof -
  assume a: "N \<le> u" "u < 2 * N"
  define v where "v = u - N"
  have v: "v < N" and u: "Suc u = N + Suc v"
    using a by (simp_all add: v_def)
  have "N dvd Suc u \<longleftrightarrow> N dvd Suc v"
    unfolding u by (rule dvd_add_triv_left_iff)
  also have "\<dots> \<longleftrightarrow> Suc v = N"
    using v by (rule dvd_Suc_small)
  also have "\<dots> \<longleftrightarrow> Suc u = 2 * N"
    using u by auto
  finally show ?thesis .
qed

lemma gen_accepts_iff:
  assumes "0 \<le> sz" "sz \<le> 31" "0 < pick" "pick \<le> 32"
    and N: "length (accepted_indices (nat sz) (nat pick)) = N" "0 < N"
  shows "gen_accepts ((gen_next ^^ t) (gen_at sz pick c 0 False)) \<longleftrightarrow> \<not> N dvd Suc t"
proof -
  define u where "u = t mod (2 * N)"
  have p0: "0 \<le> pick" using assms(3) by simp
  have u: "u < 2 * N"
    using N(2) by (simp add: u_def)
  have dv: "N dvd Suc t \<longleftrightarrow> N dvd Suc u"
    unfolding u_def using N(2) by (rule dvd_Suc_mod_double)
  note st = gen_state_at [OF assms, of t c, folded u_def]
  show ?thesis
  proof (cases "u < N")
    case True
    then have "gen_accepts ((gen_next ^^ t) (gen_at sz pick c 0 False)) \<longleftrightarrow> Suc u < N"
      using st gen_accepts_forward [OF assms(1,2) p0 assms(4), of u c] N(1) by simp
    also have "\<dots> \<longleftrightarrow> \<not> N dvd Suc u"
      using True by (auto simp: dvd_Suc_small)
    finally show ?thesis
      by (simp only: dv)
  next
    case False
    then have r: "2 * N - 1 - u < N"
      using u by simp
    have "gen_accepts ((gen_next ^^ t) (gen_at sz pick c 0 False)) \<longleftrightarrow> 0 < 2 * N - 1 - u"
      using False st gen_accepts_reverse [OF assms(1-4), of "2 * N - 1 - u" c] N(1) r by simp
    also have "\<dots> \<longleftrightarrow> \<not> N dvd Suc u"
      using False u by (auto simp: dvd_Suc_second)
    finally show ?thesis
      by (simp only: dv)
  qed
qed

lemma gen_after_funpow: "gen_after n g = (gen_next ^^ n) g"
  by (induction n arbitrary: g) (simp_all add: funpow_swap1)

lemma gen_after_Suc: "gen_after (Suc n) g = gen_next (gen_after n g)"
  by (simp add: gen_after_funpow)

lemma gen_after_add: "gen_after (m + n) g = gen_after m (gen_after n g)"
  by (simp add: gen_after_funpow funpow_add)

text \<open>Popcount of conjunction and exclusive or.\<close>

lemma bit_sum_identity: "(a + b) mod 2 + 2 * (a * b) = a + b" if "a < 2" "b < 2" for a b :: nat
proof -
  from that have "(a = 0 \<or> a = 1) \<and> (b = 0 \<or> b = 1)"
    by linarith
  then show ?thesis
    by auto
qed

lemma and_nat_mod2: "(x AND y) mod 2 = x mod 2 * (y mod 2)" for x y :: nat
  by (simp add: and_nat_rec [of x y] mod2_eq_if)

lemma and_nat_div2: "(x AND y) div 2 = x div 2 AND y div 2" for x y :: nat
  by (simp add: and_nat_rec [of x y])

lemma xor_nat_mod2: "(x XOR y) mod 2 = (x mod 2 + y mod 2) mod 2" for x y :: nat
  by (simp add: xor_nat_rec [of x y] mod2_eq_if)

lemma xor_nat_div2: "(x XOR y) div 2 = x div 2 XOR y div 2" for x y :: nat
  by (simp add: xor_nat_rec [of x y])

lemma pc_xor_and: "pc (x XOR y) + 2 * pc (x AND y) = pc x + pc y"
proof (induction x arbitrary: y rule: pc.induct)
  case (1 x)
  show ?case
  proof (cases "x = 0")
    case True
    then show ?thesis by simp
  next
    case False
    then have IH: "pc (x div 2 XOR y div 2) + 2 * pc (x div 2 AND y div 2) = pc (x div 2) + pc (y div 2)"
      by (rule 1)
    have b: "(x mod 2 + y mod 2) mod 2 + 2 * (x mod 2 * (y mod 2)) = x mod 2 + y mod 2"
      by (rule bit_sum_identity) simp_all
    have "pc (x XOR y) + 2 * pc (x AND y)
        = ((x mod 2 + y mod 2) mod 2 + pc (x div 2 XOR y div 2))
          + 2 * (x mod 2 * (y mod 2) + pc (x div 2 AND y div 2))"
      by (simp only: pc_rec [of "x XOR y"] pc_rec [of "x AND y"] xor_nat_mod2 xor_nat_div2
          and_nat_mod2 and_nat_div2)
    also have "\<dots> = ((x mod 2 + y mod 2) mod 2 + 2 * (x mod 2 * (y mod 2)))
          + (pc (x div 2 XOR y div 2) + 2 * pc (x div 2 AND y div 2))"
      by (simp only: distrib_left add.assoc add.left_commute)
    also have "\<dots> = (x mod 2 + pc (x div 2)) + (y mod 2 + pc (y div 2))"
      by (simp only: b IH add.assoc add.left_commute)
    finally show ?thesis
      by (simp only: pc_rec [symmetric])
  qed
qed

lemma pc_and_not: "pc (x XOR (x AND y)) + pc (x AND y) = pc x"
proof -
  have "pc (x XOR (x AND y)) + 2 * pc (x AND (x AND y)) = pc x + pc (x AND y)"
    by (rule pc_xor_and)
  moreover have "x AND (x AND y) = x AND y"
    by (simp add: and.assoc [symmetric])
  ultimately show ?thesis
    by simp
qed

lemma word_and_not_xor: "a AND NOT b = a XOR (a AND b)" for a b :: u32
  by (rule bit_eqI) (auto simp: bit_simps)

lemma count_bits_small: "n \<le> 32 \<Longrightarrow> pc (unat x) = n \<Longrightarrow> count_bits x = of_nat n"
  by (simp add: count_bits_eq)

lemma hamming_parts:
  fixes a b :: u32
  assumes "pc (unat a) = pc (unat b)" "pc (unat a XOR unat b) = 2"
  shows "count_bits (a XOR b) = 2 \<and> count_bits (a AND NOT b) = 1 \<and> count_bits (b AND NOT a) = 1"
proof -
  have x: "count_bits (a XOR b) = 2"
    using assms(2) by (simp add: count_bits_eq unsigned_xor_eq)
  have "2 + 2 * pc (unat a AND unat b) = pc (unat a) + pc (unat b)"
    using pc_xor_and [of "unat a" "unat b"] assms(2) by simp
  with assms(1) have ab: "pc (unat a) = Suc (pc (unat a AND unat b))"
    and ba: "pc (unat b) = Suc (pc (unat b AND unat a))"
    by (simp_all add: and.commute)
  have "pc (unat a XOR (unat a AND unat b)) = 1"
    using pc_and_not [of "unat a" "unat b"] ab by simp
  then have 1: "count_bits (a AND NOT b) = 1"
    by (simp add: word_and_not_xor count_bits_eq unsigned_xor_eq unsigned_and_eq)
  have "pc (unat b XOR (unat b AND unat a)) = 1"
    using pc_and_not [of "unat b" "unat a"] ba by simp
  then have 2: "count_bits (b AND NOT a) = 1"
    by (simp add: word_and_not_xor count_bits_eq unsigned_xor_eq unsigned_and_eq)
  from x 1 2 show ?thesis
    by simp
qed

text \<open>The value of the generator on its \<open>r\<close>-th accepted index.\<close>

lemma unat_gen_value:
  assumes "0 \<le> sz" "sz \<le> 31" "r < length (accepted_indices (nat sz) (nat pick))"
  shows "unat (gen_value (gen_at sz pick c r d)) = fixed_weight (nat sz) (nat pick) ! r"
proof -
  have "unat (gen_value (gen_at sz pick c r d))
      = gray_nat (accepted_indices (nat sz) (nat pick) ! r)"
    by (simp add: gen_value_def gen_at_def unat_gray unat_accepted_index [OF assms])
  also have "\<dots> = map gray_nat (accepted_indices (nat sz) (nat pick)) ! r"
    using assms(3) by simp
  finally show ?thesis
    by (simp only: map_gray_accepted_indices)
qed

lemma pc_gen_value:
  assumes "0 \<le> sz" "sz \<le> 31" "r < length (accepted_indices (nat sz) (nat pick))"
  shows "pc (unat (gen_value (gen_at sz pick c r d))) = nat pick"
proof -
  have "r < length (fixed_weight (nat sz) (nat pick))"
    using assms(3) by (simp add: length_accepted_indices length_fixed_weight)
  then have "fixed_weight (nat sz) (nat pick) ! r \<in> set (fixed_weight (nat sz) (nat pick))"
    by (rule nth_mem)
  then show ?thesis
    by (simp only: unat_gen_value [OF assms] pc_fixed_weight)
qed

lemma count_bits_gen_value:
  assumes "0 \<le> sz" "sz \<le> 31" "0 \<le> pick" "pick \<le> 32"
    and "r < length (accepted_indices (nat sz) (nat pick))"
  shows "count_bits (gen_value (gen_at sz pick c r d)) = word_of_int pick"
proof -
  have "count_bits (gen_value (gen_at sz pick c r d)) = of_nat (nat pick)"
    using assms(3,4) pc_gen_value [OF assms(1,2,5), of c d] by (intro count_bits_small) simp_all
  with assms(3) show ?thesis
    by (simp only: word_of_int_nat)
qed

lemma gen_value_adjacent:
  assumes "0 \<le> sz" "sz \<le> 31" "Suc r < length (accepted_indices (nat sz) (nat pick))"
  shows "pc (unat (gen_value (gen_at sz pick c r d)) XOR unat (gen_value (gen_at sz pick c (Suc r) d'))) = 2"
proof -
  have r: "r < length (accepted_indices (nat sz) (nat pick))"
    using assms(3) by simp
  have "Suc r < length (fixed_weight (nat sz) (nat pick))"
    using assms(3) by (simp add: length_accepted_indices length_fixed_weight)
  with fixed_weight_successively [of "nat sz" "nat pick"]
  have "pc (fixed_weight (nat sz) (nat pick) ! r XOR fixed_weight (nat sz) (nat pick) ! Suc r) = 2"
    by (rule successively_nth)
  then show ?thesis
    by (simp only: unat_gen_value [OF assms(1,2) r] unat_gen_value [OF assms])
qed

lemma gen_value_inj:
  assumes "0 \<le> sz" "sz \<le> 31" "r < length (accepted_indices (nat sz) (nat pick))"
    "r' < length (accepted_indices (nat sz) (nat pick))"
    "gen_value (gen_at sz pick c r d) = gen_value (gen_at sz pick c r' d')"
  shows "r = r'"
proof -
  have "fixed_weight (nat sz) (nat pick) ! r = fixed_weight (nat sz) (nat pick) ! r'"
    using assms(5) unat_gen_value [OF assms(1,2,3), of c d] unat_gen_value [OF assms(1,2,4), of c d']
    by simp
  moreover have "r < length (fixed_weight (nat sz) (nat pick))"
      "r' < length (fixed_weight (nat sz) (nat pick))"
    using assms(3,4) by (simp_all add: length_accepted_indices length_fixed_weight)
  ultimately show ?thesis
    using distinct_fixed_weight [of "nat sz" "nat pick"] by (simp add: nth_eq_iff_index_eq)
qed

lemma length_indices_choose:
  "length (accepted_indices (nat sz) (nat pick)) = nat sz choose nat pick"
  by (rule length_accepted_indices)

lemma choose_pos: "0 \<le> pick \<Longrightarrow> pick \<le> sz \<Longrightarrow> 0 < nat sz choose nat pick"
  by (simp add: zero_less_binomial_iff)

text \<open>Every state the constructed generator reaches stands on an accepted index.\<close>

lemma gen_after_reachable:
  assumes "0 < pick" "pick \<le> sz" "sz \<le> 31"
  shows "\<exists>r d. r < nat sz choose nat pick
    \<and> gen_after t (gen_at sz pick c 0 False) = gen_at sz pick c r d"
proof -
  have "0 \<le> sz" "pick \<le> 32" "0 \<le> pick"
    using assms by simp_all
  then show ?thesis
    unfolding gen_after_funpow
    using assms by (intro reachable_gen_at length_indices_choose choose_pos) simp_all
qed

lemma gen_step_cases:
  assumes "0 < pick" "pick \<le> sz" "sz \<le> 31" "r < nat sz choose nat pick"
  shows "gen_accepts (gen_at sz pick c r d) \<and>
      (\<exists>r'. r' < nat sz choose nat pick \<and> (r' = Suc r \<or> r = Suc r')
        \<and> gen_next (gen_at sz pick c r d) = gen_at sz pick c r' d)
    \<or> \<not> gen_accepts (gen_at sz pick c r d) \<and>
      gen_next (gen_at sz pick c r d) = gen_at sz pick c r (\<not> d)"
proof -
  have b: "0 \<le> sz" "pick \<le> 32" "0 \<le> pick"
    using assms by simp_all
  have r: "r < length (accepted_indices (nat sz) (nat pick))"
    using assms(4) by (simp only: length_indices_choose)
  show ?thesis
  proof (cases d)
    case True
    show ?thesis
    proof (cases "0 < r")
      case pos: True
      then have "r - 1 < nat sz choose nat pick" "r = Suc (r - 1)"
        using assms(4) by simp_all
      moreover have "gen_next (gen_at sz pick c r d) = gen_at sz pick c (r - 1) d"
        using pos True gen_next_reverse [OF b(1) assms(3,1) b(2) r, of c] by simp
      moreover have "gen_accepts (gen_at sz pick c r d)"
        using pos True gen_accepts_reverse [OF b(1) assms(3,1) b(2) r, of c] by simp
      ultimately show ?thesis
        by blast
    next
      case False
      then show ?thesis
        using True gen_next_reverse [OF b(1) assms(3,1) b(2) r, of c]
          gen_accepts_reverse [OF b(1) assms(3,1) b(2) r, of c] by simp
    qed
  next
    case False
    show ?thesis
    proof (cases "Suc r < nat sz choose nat pick")
      case nxt: True
      then have "gen_next (gen_at sz pick c r d) = gen_at sz pick c (Suc r) d"
        using False gen_next_forward [OF b(1) assms(3) b(3,2) r, of c]
        by (simp add: length_indices_choose)
      moreover have "gen_accepts (gen_at sz pick c r d)"
        using nxt False gen_accepts_forward [OF b(1) assms(3) b(3,2) r, of c]
        by (simp add: length_indices_choose)
      ultimately show ?thesis
        using nxt by blast
    next
      case last: False
      then show ?thesis
        using False gen_next_forward [OF b(1) assms(3) b(3,2) r, of c]
          gen_accepts_forward [OF b(1) assms(3) b(3,2) r, of c]
        by (simp add: length_indices_choose)
    qed
  qed
qed

lemma gen_at_neighbours_distance:
  assumes "0 < pick" "pick \<le> sz" "sz \<le> 31"
    and "r < nat sz choose nat pick" "r' < nat sz choose nat pick" "r' = Suc r \<or> r = Suc r'"
  shows "count_bits (gen_value (gen_at sz pick c r d) XOR gen_value (gen_at sz pick c r' d')) = 2
    \<and> count_bits (gen_value (gen_at sz pick c r d) AND NOT (gen_value (gen_at sz pick c r' d'))) = 1
    \<and> count_bits (gen_value (gen_at sz pick c r' d') AND NOT (gen_value (gen_at sz pick c r d))) = 1"
proof (rule hamming_parts)
  have b: "0 \<le> sz"
    using assms by simp
  have r: "r < length (accepted_indices (nat sz) (nat pick))"
    and r': "r' < length (accepted_indices (nat sz) (nat pick))"
    using assms(4,5) by (simp_all only: length_indices_choose)
  show "pc (unat (gen_value (gen_at sz pick c r d))) = pc (unat (gen_value (gen_at sz pick c r' d')))"
    by (simp only: pc_gen_value [OF b assms(3) r] pc_gen_value [OF b assms(3) r'])
  from assms(6)
  show "pc (unat (gen_value (gen_at sz pick c r d)) XOR unat (gen_value (gen_at sz pick c r' d'))) = 2"
  proof
    assume "r' = Suc r"
    then show ?thesis
      using gen_value_adjacent [OF b assms(3), of r pick c d d'] r' by simp
  next
    assume "r = Suc r'"
    then show ?thesis
      using gen_value_adjacent [OF b assms(3), of r' pick c d' d] r by (simp add: xor.commute)
  qed
qed

lemma gen_value_gen_at_dir: "gen_value (gen_at sz pick c r d) = gen_value (gen_at sz pick c r d')"
  by (simp add: gen_value_def gen_at_def)

text \<open>
  Claim C4. Let \<open>0 < pick < size \<le> 31\<close> and let \<open>g\<close> be the constructed generator. Calls of
  \<^verbatim>\<open>next()\<close> that do not accept leave \<^verbatim>\<open>value()\<close> unchanged, so two consecutive accepted
  values are the values before and after an accepting call. Across every accepting call, in
  the forward phase, in the reverse phase and after a flip, the two values differ in exactly
  two bits: one bit is cleared and one bit is set.
\<close>

theorem consecutive_accepted_distance:
  assumes "0 < pick" "pick < sz" "sz \<le> 31"
  shows "\<exists>g. gray_generator_init sz pick = Inr g \<and>
    (\<forall>t. \<not> gen_accepts (gen_after t g) \<longrightarrow>
       gen_value (gen_after (Suc t) g) = gen_value (gen_after t g)) \<and>
    (\<forall>t. gen_accepts (gen_after t g) \<longrightarrow>
       count_bits (gen_value (gen_after t g) XOR gen_value (gen_after (Suc t) g)) = 2 \<and>
       count_bits (gen_value (gen_after t g) AND NOT (gen_value (gen_after (Suc t) g))) = 1 \<and>
       count_bits (gen_value (gen_after (Suc t) g) AND NOT (gen_value (gen_after t g))) = 1)"
proof -
  define c where "c = combinations_of sz pick"
  define g where "g = gen_at sz pick c 0 False"
  have le: "pick \<le> sz"
    using assms(2) by simp
  have init: "gray_generator_init sz pick = Inr g"
    unfolding g_def c_def using assms(1) le assms(3) by (rule gray_generator_init_eq)
  have keep: "gen_value (gen_after (Suc t) g) = gen_value (gen_after t g)"
    if "\<not> gen_accepts (gen_after t g)" for t
  proof -
    obtain r d where r: "r < nat sz choose nat pick" and st: "gen_after t g = gen_at sz pick c r d"
      using gen_after_reachable [OF assms(1) le assms(3), of t c] unfolding g_def by blast
    from gen_step_cases [OF assms(1) le assms(3) r, of c d] that
    have "gen_next (gen_at sz pick c r d) = gen_at sz pick c r (\<not> d)"
      unfolding st by blast
    then show ?thesis
      unfolding gen_after_Suc st by (simp only: gen_value_gen_at_dir [of sz pick c r "\<not> d" d])
  qed
  have move: "count_bits (gen_value (gen_after t g) XOR gen_value (gen_after (Suc t) g)) = 2 \<and>
       count_bits (gen_value (gen_after t g) AND NOT (gen_value (gen_after (Suc t) g))) = 1 \<and>
       count_bits (gen_value (gen_after (Suc t) g) AND NOT (gen_value (gen_after t g))) = 1"
    if "gen_accepts (gen_after t g)" for t
  proof -
    obtain r d where r: "r < nat sz choose nat pick" and st: "gen_after t g = gen_at sz pick c r d"
      using gen_after_reachable [OF assms(1) le assms(3), of t c] unfolding g_def by blast
    from gen_step_cases [OF assms(1) le assms(3) r, of c d] that
    obtain r' where r': "r' < nat sz choose nat pick" "r' = Suc r \<or> r = Suc r'"
        and nx: "gen_next (gen_at sz pick c r d) = gen_at sz pick c r' d"
      unfolding st by blast
    show ?thesis
      unfolding gen_after_Suc st nx
      using assms(1) le assms(3) r r' by (rule gen_at_neighbours_distance)
  qed
  from init keep move show ?thesis
    by blast
qed

abbreviation gen_4_3 :: gray_generator_t where
  "gen_4_3 \<equiv> \<lparr>size_m = 4, pick_m = 3, reversed_m = False, index_m = 5, combinations_m = 4\<rparr>"

lemma init_4_3: "gray_generator_init 4 3 = Inr gen_4_3"
  by code_simp

lemma accepts_4_3: "gen_accepts gen_4_3"
  by code_simp

text \<open>Claim C4 at size 4, pick 3, for the first call after construction.\<close>

theorem consecutive_accepted_distance_witness:
  "(0::int) < 3 \<and> (3::int) < 4 \<and> (4::int) \<le> 31 \<and> gray_generator_init 4 3 = Inr gen_4_3
   \<and> gen_accepts (gen_after 0 gen_4_3)
   \<and> count_bits (gen_value (gen_after 0 gen_4_3) XOR gen_value (gen_after (Suc 0) gen_4_3)) = 2
   \<and> count_bits (gen_value (gen_after 0 gen_4_3) AND NOT (gen_value (gen_after (Suc 0) gen_4_3))) = 1
   \<and> count_bits (gen_value (gen_after (Suc 0) gen_4_3) AND NOT (gen_value (gen_after 0 gen_4_3))) = 1"
proof -
  obtain g where g: "gray_generator_init 4 3 = Inr g"
    and mv: "\<forall>t. gen_accepts (gen_after t g) \<longrightarrow>
       count_bits (gen_value (gen_after t g) XOR gen_value (gen_after (Suc t) g)) = 2 \<and>
       count_bits (gen_value (gen_after t g) AND NOT (gen_value (gen_after (Suc t) g))) = 1 \<and>
       count_bits (gen_value (gen_after (Suc t) g) AND NOT (gen_value (gen_after t g))) = 1"
    using consecutive_accepted_distance [of 3 4] by auto
  from g have eq: "g = gen_4_3"
    by (simp add: init_4_3)
  have acc: "gen_accepts (gen_after 0 gen_4_3)"
    using accepts_4_3 by simp
  from mv [rule_format, of 0] acc show ?thesis
    unfolding eq by (simp add: init_4_3)
qed

text \<open>
  Claim C8, as the code has it. For size 4 and pick 3 the forward phase accepts, in this
  order, \<open>0b0111 = 7\<close>, \<open>0b1101 = 13\<close>, \<open>0b1110 = 14\<close>, \<open>0b1011 = 11\<close> (the first one in
  the constructor); each has popcount 3 and neighbours differ in 2 bits. The fourth call
  only flips the direction; the reverse phase then accepts \<open>14\<close>, \<open>13\<close>, \<open>7\<close>, and after
  eight calls the generator is back in its state after construction.
\<close>

theorem size4_pick3_order:
  "gray_generator_init 4 3 = Inr gen_4_3
   \<and> gen_value gen_4_3 # accepted_values 4 gen_4_3 = [7, 13, 14, 11]
   \<and> reversed_m (gen_after 4 gen_4_3)
   \<and> accepted_values 4 (gen_after 4 gen_4_3) = [14, 13, 7]
   \<and> gen_after 8 gen_4_3 = gen_4_3
   \<and> map count_bits [7, 13, 14, 11] = [3, 3, 3, 3]
   \<and> count_bits (7 XOR 13) = 2 \<and> count_bits (13 XOR 14) = 2 \<and> count_bits (14 XOR 11) = 2"
  by code_simp

text \<open>
  Claim C8 as stated fails: the forward order is not \<open>0b0111, 0b1011, 0b1101, 0b1110\<close>,
  that is \<open>7, 11, 13, 14\<close>.
\<close>

theorem size4_pick3_spec_order_fails:
  "gray_generator_init 4 3 = Inr gen_4_3
   \<and> gen_value gen_4_3 # accepted_values 4 gen_4_3 \<noteq> [7, 11, 13, 14]"
  by code_simp

end
